theory Spec2Isabelle
  imports Main "HOL-Library.Word"
begin

section \<open>PrivacyVotingDAOv2: data model\<close>

text \<open>
  The contract is Solidity ^0.8.24: integers are fixed-width words, arithmetic outside an
  \<open>unchecked\<close> block reverts with \<open>Panic(0x11)\<close> on overflow, division by zero reverts
  with \<open>Panic(0x12)\<close>, an array index out of range reverts with \<open>Panic(0x32)\<close>, and a
  failed \<open>require\<close> reverts with its message. A reverted call leaves the storage as it
  was before the call.

  Names are the contract's, except where Isabelle reserves them: \<open>pid\<close> stands for the
  parameter \<open>id\<close>, \<open>opt\<close> for \<open>option\<close>, \<open>prf\<close> for \<open>proof\<close>, \<open>val\<close> for \<open>value\<close>,
  \<open>en\<close> for \<open>end\<close>, and \<open>toString\<close> for \<open>_toString\<close>.
\<close>

type_synonym uint8 = "8 word"
type_synonym uint16 = "16 word"
type_synonym uint32 = "32 word"
type_synonym uint64 = "64 word"
type_synonym uint256 = "256 word"
type_synonym address = "160 word"

datatype revert =
    Revert string
  | Panic nat
  | OwnableUnauthorizedAccount address
  | OwnableInvalidOwner address

datatype CountingMode = Simple | Quadratic

datatype event =
    MemberRootUpdated uint256
  | ProposalCreated uint256 CountingMode string uint64
  | ProofVerified uint256 uint256 uint256 uint256
  | VoteCast uint256 uint8 uint256 uint256
  | ProposalClosed uint256 uint8
  | OwnershipTransferred address address

record Proposal =
  title :: string
  description :: string
  mode :: CountingMode
  options :: "string list"
  tally :: "uint256 \<Rightarrow> uint256"
  nullifiers :: "uint256 \<Rightarrow> bool"
  closes :: uint64
  closed :: bool

text \<open>
  The contract's storage. \<open>owner\<close> is the slot of the inherited \<open>Ownable\<close>;
  \<open>govToken\<close> is the immutable address of the governance token (zero when no weight
  oracle is configured). A storage mapping is total: a key never written reads as zero.
\<close>

record storage =
  owner :: address
  memberMerkleRoot :: uint256
  proposalCount :: uint256
  proposals :: "uint256 \<Rightarrow> Proposal"
  govToken :: address

text \<open>
  What a call sees of the chain: \<open>block.timestamp\<close>, \<open>msg.sender\<close> and the answer of
  \<open>govToken.getVotes\<close> (a view call into another contract) at that moment.
\<close>

record env =
  timestamp :: uint256
  sender :: address
  getVotes :: "address \<Rightarrow> uint256"

text \<open>
  What the contract is linked against and does not define: the \<open>keccak256\<close> builtin
  (on the packed bytes, read as \<open>uint256\<close>) and the code behind the immutable
  \<open>verifier\<close> address.
\<close>

record externals =
  keccak256 :: "string \<Rightarrow> uint256"
  verifyProof :: "uint256 list \<Rightarrow> uint256 list \<Rightarrow> bool"

text \<open>
  A state-changing function returns its value, the new storage and the events it
  emitted, or the revert reason together with the storage as written up to the point of
  the revert (which the EVM then throws away, see \<open>transact\<close>).
\<close>

type_synonym 'a result = "revert \<times> storage + 'a \<times> storage \<times> event list"

definition empty_Proposal :: Proposal where
  "empty_Proposal =
     \<lparr>title = [], description = [], mode = Simple, options = [],
      tally = (\<lambda>_. 0), nullifiers = (\<lambda>_. False), closes = 0, closed = False\<rparr>"

text \<open>Checked addition, subtraction and division, as the compiler emits them.\<close>

definition checked_add :: "'a::len word \<Rightarrow> 'a word \<Rightarrow> revert + 'a word" where
  "checked_add a b = (if unat a + unat b < 2 ^ LENGTH('a) then Inr (a + b) else Inl (Panic 0x11))"

definition checked_div :: "'a::len word \<Rightarrow> 'a word \<Rightarrow> revert + 'a word" where
  "checked_div a b = (if b = 0 then Inl (Panic 0x12) else Inr (a div b))"

definition checked_sub :: "'a::len word \<Rightarrow> 'a word \<Rightarrow> revert + 'a word" where
  "checked_sub a b = (if b \<le> a then Inr (a - b) else Inl (Panic 0x11))"

section \<open>The mock verifier\<close>

record G1Point =
  g1_x :: uint256
  g1_y :: uint256

record G2Point =
  g2_x :: "uint256 \<times> uint256"
  g2_y :: "uint256 \<times> uint256"

record Pairing_Proof =
  proof_a :: G1Point
  proof_b :: G2Point
  proof_c :: G1Point

record VerifyingKey =
  vk_a :: G1Point
  vk_b :: G2Point
  vk_g :: G2Point
  vk_d :: G2Point
  vk_ic :: "G1Point list"

definition Pairing_verify :: "Pairing_Proof \<Rightarrow> uint256 list \<Rightarrow> VerifyingKey \<Rightarrow> bool" where
  "Pairing_verify prf inputs vk = True"

definition SemaphoreVerifier_verifyProof :: "uint256 list \<Rightarrow> uint256 list \<Rightarrow> bool" where
  "SemaphoreVerifier_verifyProof prf publicSignals = True"

section \<open>Internal helpers\<close>

subsection \<open>\<open>sqrt\<close>\<close>

text \<open>
  \<^verbatim>\<open>while (z < y) { y = z; z = (x / z + z) / 2; }\<close>
\<close>

function sqrt_loop :: "uint256 \<Rightarrow> uint256 \<Rightarrow> uint256 \<Rightarrow> revert + uint256" where
  "sqrt_loop x y z =
     (if z < y then
        (case checked_div x z of
           Inl e \<Rightarrow> Inl e
         | Inr q \<Rightarrow>
             (case checked_add q z of
                Inl e \<Rightarrow> Inl e
              | Inr s \<Rightarrow> sqrt_loop x z (s div 2)))
      else Inr y)"
  by pat_completeness auto
termination
  by (relation "measure (\<lambda>(x, y, z). unat y)") (auto simp: word_less_nat_alt)

declare sqrt_loop.simps [simp del]

definition sqrt :: "uint256 \<Rightarrow> revert + uint256" where
  "sqrt x =
     (if x = 0 then Inr 0
      else
        (case checked_add x 1 of
           Inl e \<Rightarrow> Inl e
         | Inr x1 \<Rightarrow> sqrt_loop x x (x1 div 2)))"

subsection \<open>\<open>_toString\<close>\<close>

text \<open>
  \<^verbatim>\<open>while (temp != 0) { digits++; temp /= 10; }\<close>
\<close>

function count_digits :: "uint256 \<Rightarrow> uint256 \<Rightarrow> revert + uint256" where
  "count_digits temp digits =
     (if temp \<noteq> 0 then
        (case checked_add digits 1 of
           Inl e \<Rightarrow> Inl e
         | Inr d \<Rightarrow> count_digits (temp div 10) d)
      else Inr digits)"
  by pat_completeness auto
termination
  by (relation "measure (\<lambda>(temp, digits). unat temp)")
     (auto simp: unat_div unat_gt_0)

declare count_digits.simps [simp del]

text \<open>
  \<^verbatim>\<open>while (value != 0) { digits -= 1; buffer[digits] = bytes1(uint8(48 + uint256(value % 10))); value /= 10; }\<close>
\<close>

function fill_digits :: "uint256 \<Rightarrow> uint256 \<Rightarrow> string \<Rightarrow> revert + string" where
  "fill_digits val digits buffer =
     (if val \<noteq> 0 then
        (case checked_sub digits 1 of
           Inl e \<Rightarrow> Inl e
         | Inr d \<Rightarrow>
             (case checked_add 48 (val mod 10) of
                Inl e \<Rightarrow> Inl e
              | Inr c \<Rightarrow>
                  if unat d < length buffer
                  then fill_digits (val div 10) d (buffer[unat d := char_of (unat (ucast c :: uint8))])
                  else Inl (Panic 0x32)))
      else Inr buffer)"
  by pat_completeness auto
termination
  by (relation "measure (\<lambda>(val, digits, buffer). unat val)")
     (auto simp: unat_div unat_gt_0)

declare fill_digits.simps [simp del]

definition toString :: "uint256 \<Rightarrow> revert + string" where
  "toString val =
     (if val = 0 then Inr ''0''
      else
        (case count_digits val 0 of
           Inl e \<Rightarrow> Inl e
         | Inr digits \<Rightarrow> fill_digits val digits (replicate (unat digits) (CHR 0x00))))"

section \<open>The contract's functions\<close>

subsection \<open>Constructor and owner-only functions\<close>

text \<open>
  \<open>Ownable\<close> is OpenZeppelin's (v5, imported by the contract): its constructor rejects the
  zero address, \<open>onlyOwner\<close> reverts with \<open>OwnableUnauthorizedAccount\<close> for any other
  sender, and the owner can hand over or renounce ownership.
\<close>

definition constructor :: "address \<Rightarrow> uint256 \<Rightarrow> address \<Rightarrow> revert + storage \<times> event list" where
  "constructor msg_sender root token =
     (if msg_sender = 0 then Inl (OwnableInvalidOwner 0)
      else Inr (\<lparr>owner = msg_sender, memberMerkleRoot = root, proposalCount = 0,
                 proposals = (\<lambda>_. empty_Proposal), govToken = token\<rparr>,
                [OwnershipTransferred 0 msg_sender]))"

definition transferOwnership :: "env \<Rightarrow> storage \<Rightarrow> address \<Rightarrow> unit result" where
  "transferOwnership e s newOwner =
     (if owner s \<noteq> sender e then Inl (OwnableUnauthorizedAccount (sender e), s)
      else if newOwner = 0 then Inl (OwnableInvalidOwner 0, s)
      else Inr ((), s\<lparr>owner := newOwner\<rparr>, [OwnershipTransferred (owner s) newOwner]))"

definition renounceOwnership :: "env \<Rightarrow> storage \<Rightarrow> unit result" where
  "renounceOwnership e s =
     (if owner s \<noteq> sender e then Inl (OwnableUnauthorizedAccount (sender e), s)
      else Inr ((), s\<lparr>owner := 0\<rparr>, [OwnershipTransferred (owner s) 0]))"

definition updateMemberRoot :: "env \<Rightarrow> storage \<Rightarrow> uint256 \<Rightarrow> unit result" where
  "updateMemberRoot e s newRoot =
     (if owner s \<noteq> sender e then Inl (OwnableUnauthorizedAccount (sender e), s)
      else Inr ((), s\<lparr>memberMerkleRoot := newRoot\<rparr>, [MemberRootUpdated newRoot]))"

text \<open>
  \<^verbatim>\<open>for (uint i = 0; i < options.length; i++) { p.options.push(options[i]); }\<close>
\<close>

fun push_all :: "string list \<Rightarrow> string list \<Rightarrow> string list" where
  "push_all stored [] = stored"
| "push_all stored (x # xs) = push_all (stored @ [x]) xs"

definition createProposal ::
  "env \<Rightarrow> storage \<Rightarrow> string \<Rightarrow> string \<Rightarrow> CountingMode \<Rightarrow> string list \<Rightarrow> uint32 \<Rightarrow> uint256 result"
where
  "createProposal e s ttl descr md opts duration =
     (if owner s \<noteq> sender e then Inl (OwnableUnauthorizedAccount (sender e), s)
      else if \<not> 2 \<le> length opts then Inl (Revert ''need 2+ opts'', s)
      else
        (case checked_add (proposalCount s) 1 of
           Inl err \<Rightarrow> Inl (err, s)
         | Inr pid \<Rightarrow>
             let s1 = s\<lparr>proposalCount := pid\<rparr>;
                 p = proposals s1 pid;
                 p1 = p\<lparr>title := ttl, description := descr, mode := md\<rparr>;
                 p2 = p1\<lparr>options := push_all [] opts\<rparr>;
                 s2 = s1\<lparr>proposals := (proposals s1)(pid := p2)\<rparr>
             in
               (case checked_add (ucast (timestamp e) :: uint64) (ucast duration) of
                  Inl err \<Rightarrow> Inl (err, s2)
                | Inr c \<Rightarrow>
                    Inr (pid, s2\<lparr>proposals := (proposals s2)(pid := p2\<lparr>closes := c\<rparr>)\<rparr>,
                         [ProposalCreated pid md ttl c]))))"

subsection \<open>\<open>closeProposal\<close>\<close>

text \<open>
  The winner scan, entered with \<open>i = 0\<close>, \<open>winner = type(uint8).max\<close> and \<open>high = 0\<close>:
  \<^verbatim>\<open>
  for (uint8 i = 0; i < p.options.length; ++i) {
      uint256 v = p.tally[i];
      if (v > high) { high = v; winner = i; }
      else if (v == high) { winner = type(uint8).max; }
  }\<close>
\<close>

function winner_scan :: "Proposal \<Rightarrow> uint8 \<Rightarrow> uint8 \<Rightarrow> uint256 \<Rightarrow> revert + uint8" where
  "winner_scan p i winner high =
     (if unat i < length (options p) then
        (let v = tally p (ucast i);
             high' = (if high < v then v else high);
             winner' = (if high < v then i else if v = high then 0xFF else winner)
         in
           (case checked_add i 1 of
              Inl e \<Rightarrow> Inl e
            | Inr i' \<Rightarrow> winner_scan p i' winner' high'))
      else Inr winner)"
  by pat_completeness auto
termination
  by (relation "measure (\<lambda>(p, i, winner, high). 256 - unat i)")
     (auto simp: checked_add_def unat_word_ariths split: if_splits)

declare winner_scan.simps [simp del]

definition closeProposal :: "env \<Rightarrow> storage \<Rightarrow> uint256 \<Rightarrow> unit result" where
  "closeProposal e s pid =
     (let p = proposals s pid in
      if closed p then Inl (Revert ''already closed'', s)
      else if \<not> ucast (closes p) \<le> timestamp e then Inl (Revert ''not expired'', s)
      else
        let s1 = s\<lparr>proposals := (proposals s)(pid := p\<lparr>closed := True\<rparr>)\<rparr> in
          (case winner_scan (proposals s1 pid) 0 0xFF 0 of
             Inl err \<Rightarrow> Inl (err, s1)
           | Inr winner \<Rightarrow> Inr ((), s1, [ProposalClosed pid winner])))"

subsection \<open>\<open>vote\<close>\<close>

text \<open>
  The \<open>require\<close> messages are the failure kinds of the specification:
  \<open>voting is closed\<close> is ProposalClosed, \<open>invalid option\<close> InvalidOption,
  \<open>vote already cast\<close> NullifierAlreadyUsed, \<open>invalid merkle root\<close> RootMismatch,
  \<open>signal-option mismatch\<close> SignalMismatch and \<open>invalid proof\<close> ProofInvalid; in the other
  functions \<open>need 2+ opts\<close> is InvalidOptions, \<open>already closed\<close> AlreadyClosed,
  \<open>not expired\<close> TooEarly and \<open>oob\<close> OutOfBounds.
\<close>

definition vote_weight :: "env \<Rightarrow> storage \<Rightarrow> Proposal \<Rightarrow> revert + uint256" where
  "vote_weight e s p =
     (if mode p = Quadratic \<and> govToken s \<noteq> 0 then sqrt (getVotes e (sender e)) else Inr 1)"

definition vote ::
  "externals \<Rightarrow> env \<Rightarrow> storage \<Rightarrow> uint256 \<Rightarrow> uint8 \<Rightarrow> uint256 \<Rightarrow> uint256 \<Rightarrow> uint256 \<Rightarrow> uint256 list
   \<Rightarrow> unit result"
where
  "vote X e s pid opt signalHash nullifierHash merkleRoot prf =
     (let p = proposals s pid in
      if \<not> timestamp e < ucast (closes p) then Inl (Revert ''voting is closed'', s)
      else if \<not> unat opt < length (options p) then Inl (Revert ''invalid option'', s)
      else if nullifiers p nullifierHash then Inl (Revert ''vote already cast'', s)
      else if merkleRoot \<noteq> memberMerkleRoot s then Inl (Revert ''invalid merkle root'', s)
      else
        (case toString (ucast opt) of
           Inl err \<Rightarrow> Inl (err, s)
         | Inr str \<Rightarrow>
             if signalHash \<noteq> keccak256 X (''VOTE_'' @ str)
             then Inl (Revert ''signal-option mismatch'', s)
             else if \<not> verifyProof X prf [merkleRoot, nullifierHash, signalHash, pid]
             then Inl (Revert ''invalid proof'', s)
             else
               let p1 = p\<lparr>nullifiers := (nullifiers p)(nullifierHash := True)\<rparr>;
                   s1 = s\<lparr>proposals := (proposals s)(pid := p1)\<rparr>
               in
                 (case vote_weight e s1 p1 of
                    Inl err \<Rightarrow> Inl (err, s1)
                  | Inr weight \<Rightarrow>
                      let p2 = p1\<lparr>tally := (tally p1)(ucast opt := tally p1 (ucast opt) + weight)\<rparr>;
                          s2 = s1\<lparr>proposals := (proposals s1)(pid := p2)\<rparr>;
                          evs = [ProofVerified pid merkleRoot nullifierHash signalHash,
                                 VoteCast pid opt nullifierHash weight]
                      in
                        if ucast (closes p2) \<le> timestamp e \<and> \<not> closed p2 then
                          (case closeProposal e s2 pid of
                             Inl err \<Rightarrow> Inl err
                           | Inr (u, s3, evs') \<Rightarrow> Inr ((), s3, evs @ evs'))
                        else Inr ((), s2, evs))))"

subsection \<open>Reads\<close>

definition getProposal ::
  "env \<Rightarrow> storage \<Rightarrow> uint256 \<Rightarrow> revert + string \<times> CountingMode \<times> bool \<times> uint64 \<times> string list"
where
  "getProposal e s pid =
     (let p = proposals s pid in
      Inr (title p, mode p, \<not> closed p \<and> timestamp e < ucast (closes p), closes p, options p))"

text \<open>
  \<^verbatim>\<open>uint16 end = (n == 0 || start + n > len || start + n < start) ? len : start + n;\<close>
  Each \<open>start + n\<close> is a checked \<open>uint16\<close> addition.
\<close>

definition tallies_end :: "uint16 \<Rightarrow> uint16 \<Rightarrow> uint16 \<Rightarrow> revert + uint16" where
  "tallies_end start n len =
     (if n = 0 then Inr len
      else
        (case checked_add start n of
           Inl e \<Rightarrow> Inl e
         | Inr a \<Rightarrow>
             if len < a then Inr len
             else
               (case checked_add start n of
                  Inl e \<Rightarrow> Inl e
                | Inr b \<Rightarrow> if b < start then Inr len else checked_add start n)))"

text \<open>
  \<^verbatim>\<open>for (uint16 i = start; i < end; ++i) { out[i - start] = p.tally[i]; }\<close>
\<close>

function tallies_loop ::
  "Proposal \<Rightarrow> uint16 \<Rightarrow> uint16 \<Rightarrow> uint16 \<Rightarrow> uint256 list \<Rightarrow> revert + uint256 list"
where
  "tallies_loop p start en i out =
     (if i < en then
        (case checked_sub i start of
           Inl e \<Rightarrow> Inl e
         | Inr k \<Rightarrow>
             if unat k < length out then
               (case checked_add i 1 of
                  Inl e \<Rightarrow> Inl e
                | Inr i' \<Rightarrow> tallies_loop p start en i' (out[unat k := tally p (ucast i)]))
             else Inl (Panic 0x32))
      else Inr out)"
  by pat_completeness auto
termination
  by (relation "measure (\<lambda>(p, start, en, i, out). 65536 - unat i)")
     (auto simp: checked_add_def unat_word_ariths split: if_splits)

declare tallies_loop.simps [simp del]

definition tallies :: "storage \<Rightarrow> uint256 \<Rightarrow> uint16 \<Rightarrow> uint16 \<Rightarrow> revert + uint256 list" where
  "tallies s pid start n =
     (let p = proposals s pid;
          len = (of_nat (length (options p)) :: uint16)
      in
        if \<not> start < len then Inl (Revert ''oob'')
        else
          (case tallies_end start n len of
             Inl e \<Rightarrow> Inl e
           | Inr en \<Rightarrow>
               if en \<le> start \<and> 0 < len then Inr []
               else
                 (case checked_sub en start of
                    Inl e \<Rightarrow> Inl e
                  | Inr m \<Rightarrow> tallies_loop p start en start (replicate (unat m) 0))))"

subsection \<open>Transactions\<close>

datatype call =
    UpdateMemberRoot uint256
  | CreateProposal string string CountingMode "string list" uint32
  | CloseProposal uint256
  | Vote uint256 uint8 uint256 uint256 uint256 "uint256 list"
  | TransferOwnership address
  | RenounceOwnership

fun dispatch :: "externals \<Rightarrow> env \<Rightarrow> storage \<Rightarrow> call \<Rightarrow> unit result" where
  "dispatch X e s (UpdateMemberRoot newRoot) = updateMemberRoot e s newRoot"
| "dispatch X e s (CreateProposal ttl descr md opts duration) =
     (case createProposal e s ttl descr md opts duration of
        Inl err \<Rightarrow> Inl err
      | Inr (pid, s', evs) \<Rightarrow> Inr ((), s', evs))"
| "dispatch X e s (CloseProposal pid) = closeProposal e s pid"
| "dispatch X e s (Vote pid opt signalHash nullifierHash merkleRoot prf) =
     vote X e s pid opt signalHash nullifierHash merkleRoot prf"
| "dispatch X e s (TransferOwnership newOwner) = transferOwnership e s newOwner"
| "dispatch X e s RenounceOwnership = renounceOwnership e s"

text \<open>
  One transaction: a call that reverts leaves the storage as it was; one that returns
  commits its writes.
\<close>

definition transact :: "externals \<Rightarrow> storage \<Rightarrow> env \<times> call \<Rightarrow> storage" where
  "transact X s tx =
     (case dispatch X (fst tx) s (snd tx) of
        Inl err \<Rightarrow> s
      | Inr (u, s', evs) \<Rightarrow> s')"

definition run :: "externals \<Rightarrow> storage \<Rightarrow> (env \<times> call) list \<Rightarrow> storage" where
  "run X s txs = foldl (transact X) s txs"

section \<open>Reference definitions and a small deployment\<close>

text \<open>
  The decimal rendering of a natural number, as the specification words it: the digits
  of \<open>n\<close> in base ten, most significant first, and \<open>0\<close> for zero. It is what
  \<open>toString\<close> is compared against.
\<close>

definition digit_char :: "nat \<Rightarrow> char" where
  "digit_char d = ''0123456789'' ! d"

function dec_digits :: "nat \<Rightarrow> string" where
  "dec_digits n = (if n = 0 then [] else dec_digits (n div 10) @ [digit_char (n mod 10)])"
  by pat_completeness auto
termination
  by (relation "measure id") auto

declare dec_digits.simps [simp del]

definition decimal :: "nat \<Rightarrow> string" where
  "decimal n = (if n = 0 then ''0'' else dec_digits n)"

text \<open>The revert reason of a call, if it reverted.\<close>

definition revert_of :: "'a result \<Rightarrow> revert option" where
  "revert_of r = (case r of Inl (err, st) \<Rightarrow> Some err | Inr v \<Rightarrow> None)"

text \<open>The events of a call that returned.\<close>

definition events_of :: "'a result \<Rightarrow> event list" where
  "events_of r = (case r of Inl err \<Rightarrow> [] | Inr (v, st, evs) \<Rightarrow> evs)"

text \<open>
  The ids \<open>createProposal\<close> has handed out so far are \<open>1, \<dots>, proposalCount\<close>. The
  storage of any other id has never been written by \<open>createProposal\<close>; \<open>blank\<close> says
  that everything but the \<open>closed\<close> flag still reads as zero.
\<close>

definition created :: "storage \<Rightarrow> uint256 \<Rightarrow> bool" where
  "created s pid \<longleftrightarrow> pid \<noteq> 0 \<and> pid \<le> proposalCount s"

definition blank :: "Proposal \<Rightarrow> bool" where
  "blank p \<longleftrightarrow> title p = [] \<and> description p = [] \<and> mode p = Simple \<and> options p = []
     \<and> closes p = 0"

definition blank_outside :: "storage \<Rightarrow> bool" where
  "blank_outside s \<longleftrightarrow> (\<forall>pid. \<not> created s pid \<longrightarrow> blank (proposals s pid))"

text \<open>
  A deployment to run the functions on: owner \<open>1\<close>, membership root \<open>42\<close>, and one
  proposal, id \<open>1\<close>, with the options Yes and No, closing at time \<open>300\<close>. For the
  runs \<open>keccak256\<close> is replaced by a stand-in, the length of the hashed bytes.
\<close>

definition toy_hash :: "string \<Rightarrow> uint256" where
  "toy_hash bs = of_nat (length bs)"

definition ex_X :: externals where
  "ex_X = \<lparr>keccak256 = toy_hash, verifyProof = SemaphoreVerifier_verifyProof\<rparr>"

definition ex_env :: "uint256 \<Rightarrow> address \<Rightarrow> uint256 \<Rightarrow> env" where
  "ex_env t a balance = \<lparr>timestamp = t, sender = a, getVotes = (\<lambda>_. balance)\<rparr>"

definition ex_proposal :: "CountingMode \<Rightarrow> Proposal" where
  "ex_proposal md =
     \<lparr>title = ''T'', description = ''D'', mode = md, options = [''Yes'', ''No''],
      tally = (\<lambda>_. 0), nullifiers = (\<lambda>_. False), closes = 300, closed = False\<rparr>"

definition ex_storage :: "CountingMode \<Rightarrow> address \<Rightarrow> storage" where
  "ex_storage md token =
     \<lparr>owner = 1, memberMerkleRoot = 42, proposalCount = 1,
      proposals = (\<lambda>_. empty_Proposal)(1 := ex_proposal md), govToken = token\<rparr>"

text \<open>The example deployment right after its constructor, before any proposal.\<close>

definition ex_initial :: storage where
  "ex_initial =
     \<lparr>owner = 1, memberMerkleRoot = 42, proposalCount = 0,
      proposals = (\<lambda>_. empty_Proposal), govToken = 0\<rparr>"

text \<open>The example proposal with given tallies for its two options.\<close>

definition ex_tallied :: "uint256 \<Rightarrow> uint256 \<Rightarrow> storage" where
  "ex_tallied a b =
     (ex_storage Simple 0)\<lparr>proposals := (\<lambda>_. empty_Proposal)
        (1 := (ex_proposal Simple)\<lparr>tally := (\<lambda>_. 0)(0 := a, 1 := b)\<rparr>)\<rparr>"

text \<open>The example deployment with 256 options on its proposal.\<close>

definition ex_many_options :: storage where
  "ex_many_options =
     (ex_storage Simple 0)\<lparr>proposals := (\<lambda>_. empty_Proposal)
        (1 := (ex_proposal Simple)\<lparr>options := replicate 256 ''x''\<rparr>)\<rparr>"

section \<open>Integer square root\<close>

lemma four_mult_le_sum_sq:
  fixes a b :: nat
  shows "4 * (a * b) \<le> (a + b)\<^sup>2"
proof -
  have "0 \<le> (int a - int b)\<^sup>2" by simp
  then have "4 * (int a * int b) \<le> (int a + int b)\<^sup>2"
    by (simp add: power2_eq_square algebra_simps)
  then have "int (4 * (a * b)) \<le> int ((a + b)\<^sup>2)" by simp
  then show ?thesis by (rule iffD1 [OF of_nat_le_iff])
qed

text \<open>One Babylonian step from any positive \<open>y\<close> lands at or above the root.\<close>

lemma babylonian_step_above_root:
  fixes x y :: nat
  assumes "0 < y"
  shows "x < ((x div y + y) div 2 + 1)\<^sup>2"
proof -
  define q where "q = x div y"
  define m where "m = (q + y) div 2"
  have "x < (q + 1) * y"
    using assms unfolding q_def by (simp add: dividend_less_div_times add.commute)
  then have "4 * x < 4 * ((q + 1) * y)" by simp
  also have "\<dots> \<le> (q + 1 + y)\<^sup>2" by (rule four_mult_le_sum_sq)
  also have "\<dots> \<le> (2 * (m + 1))\<^sup>2"
  proof -
    have "q + 1 + y \<le> 2 * (m + 1)" unfolding m_def by arith
    then show ?thesis by (rule power_mono) simp
  qed
  also have "\<dots> = 4 * (m + 1)\<^sup>2" by (simp add: power2_eq_square)
  finally show ?thesis unfolding m_def q_def by simp
qed

lemma quotient_plus_divisor_le:
  fixes x z :: nat
  assumes "0 < z" "z \<le> x"
  shows "x div z + z \<le> x + 1"
proof -
  define q where "q = x div z"
  have qz: "q * z \<le> x" unfolding q_def by simp
  have "0 < q" unfolding q_def using assms by (simp add: div_greater_zero_iff)
  then obtain q' where q': "q = Suc q'" by (cases q) auto
  from assms obtain z' where z': "z = Suc z'" by (cases z) auto
  have "q + z \<le> q * z + 1" unfolding q' z' by simp
  with qz have "q + z \<le> x + 1" by linarith
  then show ?thesis unfolding q_def .
qed

lemma sqrt_loop_exact:
  "y \<noteq> 0 \<Longrightarrow> y \<le> x \<Longrightarrow> unat x < 2 ^ 256 - 1 \<Longrightarrow>
   unat z = (unat x div unat y + unat y) div 2 \<Longrightarrow> unat x < (unat y + 1)\<^sup>2 \<Longrightarrow>
   \<exists>r. sqrt_loop x y z = Inr r \<and> (unat r)\<^sup>2 \<le> unat x \<and> unat x < (unat r + 1)\<^sup>2"
proof (induction x y z rule: sqrt_loop.induct)
  case (1 x y z)
  have ypos: "0 < unat y" using "1.prems"(1) by (simp add: unat_gt_0)
  have xz: "unat x < (unat z + 1)\<^sup>2"
    using babylonian_step_above_root [OF ypos, of "unat x"] "1.prems"(4) by simp
  show ?case
  proof (cases "z < y")
    case False
    then have "unat y \<le> unat z" by (simp add: word_less_nat_alt)
    then have "2 * unat y \<le> unat x div unat y + unat y"
      using "1.prems"(4) by arith
    then have "unat y \<le> unat x div unat y" by simp
    then have "unat y * unat y \<le> unat x"
      using ypos by (simp add: less_eq_div_iff_mult_less_eq)
    then have "(unat y)\<^sup>2 \<le> unat x" by (simp add: power2_eq_square)
    with False "1.prems"(5) show ?thesis by (subst sqrt_loop.simps) simp
  next
    case True
    have xpos: "0 < unat x" using "1.prems"(1,2) ypos by (simp add: word_le_nat_alt)
    have zpos: "0 < unat z"
    proof (rule ccontr)
      assume "\<not> 0 < unat z"
      then have "unat z = 0" by simp
      with xz xpos show False by simp
    qed
    then have znz: "z \<noteq> 0" by (simp add: unat_gt_0)
    have zx: "unat z \<le> unat x"
      using True "1.prems"(2) by (simp add: word_less_nat_alt word_le_nat_alt)
    have q: "checked_div x z = Inr (x div z)" using znz by (simp add: checked_div_def)
    have uq: "unat (x div z) = unat x div unat z" by (simp add: unat_div)
    have bound: "unat (x div z) + unat z < 2 ^ 256"
      using quotient_plus_divisor_le [OF zpos zx] "1.prems"(3) uq by simp
    then have s: "checked_add (x div z) z = Inr (x div z + z)"
      by (simp add: checked_add_def)
    have us: "unat (x div z + z) = unat x div unat z + unat z"
      using bound uq by (simp add: unat_add_lem [THEN iffD1])
    have uz': "unat ((x div z + z) div 2) = (unat x div unat z + unat z) div 2"
      using us by (simp add: unat_div)
    have "\<exists>r. sqrt_loop x z ((x div z + z) div 2) = Inr r
            \<and> (unat r)\<^sup>2 \<le> unat x \<and> unat x < (unat r + 1)\<^sup>2"
      using znz zx "1.prems"(3) uz' xz
      by (intro "1.IH" [OF True q s]) (simp_all add: word_le_nat_alt)
    then show ?thesis using True q s by (subst sqrt_loop.simps) simp
  qed
qed

text \<open>
  Below \<open>type(uint256).max\<close> the routine returns the exact floor of the square root:
  the one \<open>r\<close> with \<open>r\<^sup>2 \<le> x < (r + 1)\<^sup>2\<close>.
\<close>

lemma sqrt_exact_below_max:
  assumes "unat x < 2 ^ 256 - 1"
  shows "\<exists>r. sqrt x = Inr r \<and> (unat r)\<^sup>2 \<le> unat x \<and> unat x < (unat r + 1)\<^sup>2"
proof (cases "x = 0")
  case True
  then show ?thesis by (simp add: sqrt_def)
next
  case False
  have bound: "unat x + unat (1 :: uint256) < 2 ^ 256" using assms by simp
  then have a: "checked_add x 1 = Inr (x + 1)" by (simp add: checked_add_def)
  have u1: "unat (x + 1) = unat x + 1"
    using bound by (simp add: unat_add_lem [THEN iffD1])
  have xpos: "0 < unat x" using False by (simp add: unat_gt_0)
  have uz: "unat ((x + 1) div 2) = (unat x div unat x + unat x) div 2"
    using u1 xpos by (simp add: unat_div)
  have "unat x < (unat x + 1)\<^sup>2" by (simp add: power2_eq_square)
  then have "\<exists>r. sqrt_loop x x ((x + 1) div 2) = Inr r
              \<and> (unat r)\<^sup>2 \<le> unat x \<and> unat x < (unat r + 1)\<^sup>2"
    using False assms uz by (intro sqrt_loop_exact) simp_all
  then show ?thesis using False a by (simp add: sqrt_def)
qed

section \<open>Decimal rendering\<close>

lemma char_of_digit: "d < 10 \<Longrightarrow> char_of (48 + d :: nat) = digit_char d"
proof -
  have "\<forall>d \<in> set [0..<10]. char_of (48 + d :: nat) = digit_char d"
    by code_simp
  then show "d < 10 \<Longrightarrow> char_of (48 + d :: nat) = digit_char d" by simp
qed

lemma count_digits_correct:
  "unat digits + unat temp < 2 ^ 256 \<Longrightarrow>
   \<exists>r. count_digits temp digits = Inr r \<and> unat r = unat digits + length (dec_digits (unat temp))"
proof (induction temp digits rule: count_digits.induct)
  case (1 temp digits)
  show ?case
  proof (cases "temp = 0")
    case True
    then show ?thesis by (subst count_digits.simps) (simp add: dec_digits.simps)
  next
    case False
    then have tpos: "0 < unat temp" by (simp add: unat_gt_0)
    have b: "unat digits + unat (1 :: uint256) < 2 ^ 256" using "1.prems" tpos by simp
    then have a: "checked_add digits 1 = Inr (digits + 1)" by (simp add: checked_add_def)
    have ud: "unat (digits + 1) = unat digits + 1"
      using b by (simp add: unat_add_lem [THEN iffD1])
    have ut: "unat (temp div 10) = unat temp div 10" by (simp add: unat_div)
    have "unat temp div 10 < unat temp" using tpos by simp
    then have "unat (digits + 1) + unat (temp div 10) < 2 ^ 256"
      using "1.prems" ud ut by simp
    from "1.IH" [OF False a this] obtain r where
      r: "count_digits (temp div 10) (digits + 1) = Inr r"
         "unat r = unat (digits + 1) + length (dec_digits (unat (temp div 10)))"
      by blast
    have "length (dec_digits (unat temp)) = Suc (length (dec_digits (unat temp div 10)))"
      using tpos by (subst dec_digits.simps) simp
    with r ud ut have "unat r = unat digits + length (dec_digits (unat temp))" by simp
    with r(1) False a show ?thesis by (subst count_digits.simps) simp
  qed
qed


lemma digit_byte:
  fixes val :: uint256
  shows "checked_add 48 (val mod 10) = Inr (48 + val mod 10)"
    and "char_of (unat (ucast (48 + val mod 10) :: uint8)) = digit_char (unat val mod 10)"
proof -
  have m: "unat (val mod 10) = unat val mod 10" by (simp add: unat_mod)
  then have lt: "unat (val mod 10) < 10" by simp
  then have b: "unat (48 :: uint256) + unat (val mod 10) < 2 ^ 256" by simp
  then show "checked_add 48 (val mod 10) = Inr (48 + val mod 10)"
    by (simp add: checked_add_def)
  have u: "unat (48 + val mod 10) = 48 + unat val mod 10"
    using b m by (simp add: unat_add_lem [THEN iffD1])
  have "unat (ucast (48 + val mod 10) :: uint8) = (48 + unat val mod 10) mod 256"
    using u by (simp add: unsigned_ucast_eq take_bit_eq_mod)
  also have "\<dots> = 48 + unat val mod 10" by simp
  finally show "char_of (unat (ucast (48 + val mod 10) :: uint8)) = digit_char (unat val mod 10)"
    by (simp add: char_of_digit)
qed

lemma fill_digits_correct:
  "unat digits = m + length (dec_digits (unat val)) \<Longrightarrow> unat digits \<le> length buffer \<Longrightarrow>
   fill_digits val digits buffer
     = Inr (take m buffer @ dec_digits (unat val) @ drop (unat digits) buffer)"
proof (induction val digits buffer rule: fill_digits.induct)
  case (1 val digits buffer)
  show ?case
  proof (cases "val = 0")
    case True
    with "1.prems" show ?thesis by (subst fill_digits.simps) (simp add: dec_digits.simps)
  next
    case False
    then have vpos: "0 < unat val" by (simp add: unat_gt_0)
    have dd: "dec_digits (unat val)
                = dec_digits (unat val div 10) @ [digit_char (unat val mod 10)]"
      using vpos by (subst dec_digits.simps) simp
    have uv: "unat (val div 10) = unat val div 10" by (simp add: unat_div)
    have dpos: "1 \<le> unat digits" using "1.prems"(1) dd by simp
    then have one_le: "1 \<le> digits" by (simp add: word_le_nat_alt)
    then have sub: "checked_sub digits 1 = Inr (digits - 1)" by (simp add: checked_sub_def)
    have ud: "unat (digits - 1) = unat digits - 1"
      using one_le by (simp add: unat_sub)
    have lt: "unat (digits - 1) < length buffer" using ud dpos "1.prems"(2) by simp
    define ch where "ch = char_of (unat (ucast (48 + val mod 10) :: uint8))"
    define buffer' where "buffer' = buffer[unat (digits - 1) := ch]"
    have ch: "ch = digit_char (unat val mod 10)" unfolding ch_def by (rule digit_byte(2))
    have p1: "unat (digits - 1) = m + length (dec_digits (unat (val div 10)))"
      using ud "1.prems"(1) dd uv by simp
    have p2: "unat (digits - 1) \<le> length buffer'" using lt by (simp add: buffer'_def)
    have IH: "fill_digits (val div 10) (digits - 1) buffer'
                = Inr (take m buffer' @ dec_digits (unat (val div 10))
                        @ drop (unat (digits - 1)) buffer')"
      unfolding buffer'_def ch_def
      using p1 p2 lt
      by (intro "1.IH" [OF False sub digit_byte(1)]) (simp_all add: buffer'_def ch_def)
    have tk: "take m buffer' = take m buffer"
      using p1 by (simp add: buffer'_def)
    have "Suc (unat (digits - 1)) = unat digits" using ud dpos by simp
    then have dr: "drop (unat (digits - 1)) buffer' = ch # drop (unat digits) buffer"
      using lt by (simp add: buffer'_def Cons_nth_drop_Suc [symmetric])
    have "fill_digits val digits buffer = fill_digits (val div 10) (digits - 1) buffer'"
      using False sub digit_byte(1) [of val] lt
      by (subst fill_digits.simps) (simp add: buffer'_def ch_def)
    also have "\<dots> = Inr (take m buffer @ dec_digits (unat val) @ drop (unat digits) buffer)"
      using IH tk dr dd ch uv by simp
    finally show ?thesis .
  qed
qed

lemma toString_decimal: "toString val = Inr (decimal (unat val))"
proof (cases "val = 0")
  case True
  then show ?thesis by (simp add: toString_def decimal_def)
next
  case False
  then have nz: "unat val \<noteq> 0" by (simp add: unat_eq_0)
  have "unat (0 :: uint256) + unat val < 2 ^ 256" using unsigned_less [of val, where 'a = nat] by simp
  from count_digits_correct [OF this] obtain r where
    r: "count_digits val 0 = Inr r" "unat r = length (dec_digits (unat val))"
    by auto
  have "fill_digits val r (replicate (unat r) (CHR 0x00))
          = Inr (take 0 (replicate (unat r) (CHR 0x00)) @ dec_digits (unat val)
                  @ drop (unat r) (replicate (unat r) (CHR 0x00)))"
    using r(2) by (intro fill_digits_correct) simp_all
  then show ?thesis using False nz r(1) by (simp add: toString_def decimal_def)
qed

section \<open>The shape of \<open>vote\<close> and of the other calls\<close>

lemma ex_deploy:
  "constructor 1 42 tok = Inr (s0, evs) \<Longrightarrow>
   run ex_X s0 [(ex_env 0 1 0, CreateProposal ''T'' ''D'' md [''Yes'', ''No''] 300)] = ex_storage md tok"
  by (auto simp: constructor_def run_def transact_def createProposal_def ex_env_def ex_storage_def
      ex_proposal_def empty_Proposal_def checked_add_def Let_def split: if_splits)

lemma unat_ucast_opt: "unat (ucast (opt :: uint8) :: uint256) = unat opt"
proof -
  have "unat opt < 2 ^ 256"
    using unsigned_less [of opt, where 'a = nat] by simp
  then show ?thesis by (simp add: unsigned_ucast_eq take_bit_nat_eq_self)
qed

lemma toString_option: "toString (ucast (opt :: uint8)) = Inr (decimal (unat opt))"
  by (simp add: toString_decimal unat_ucast_opt)

lemma vote_eq:
  "vote X e s pid opt sg n root prf =
     (let p = proposals s pid;
          s1 = s\<lparr>proposals := (proposals s)(pid := p\<lparr>nullifiers := (nullifiers p)(n := True)\<rparr>)\<rparr>
      in
      if \<not> timestamp e < ucast (closes p) then Inl (Revert ''voting is closed'', s)
      else if \<not> unat opt < length (options p) then Inl (Revert ''invalid option'', s)
      else if nullifiers p n then Inl (Revert ''vote already cast'', s)
      else if root \<noteq> memberMerkleRoot s then Inl (Revert ''invalid merkle root'', s)
      else if sg \<noteq> keccak256 X (''VOTE_'' @ decimal (unat opt))
        then Inl (Revert ''signal-option mismatch'', s)
      else if \<not> verifyProof X prf [root, n, sg, pid] then Inl (Revert ''invalid proof'', s)
      else
        (case vote_weight e s p of
           Inl err \<Rightarrow> Inl (err, s1)
         | Inr w \<Rightarrow>
             Inr ((),
                  s\<lparr>proposals := (proposals s)(pid :=
                      p\<lparr>nullifiers := (nullifiers p)(n := True),
                        tally := (tally p)(ucast opt := tally p (ucast opt) + w)\<rparr>)\<rparr>,
                  [ProofVerified pid root n sg, VoteCast pid opt n w])))"
  by (simp add: vote_def toString_option vote_weight_def Let_def leD split: sum.splits)

lemma push_all_append: "push_all stored xs = stored @ xs"
  by (induction xs arbitrary: stored) simp_all

lemma createProposal_Inr:
  assumes "createProposal e s ttl descr md opts duration = Inr (pid', s', evs)"
  shows "checked_add (proposalCount s) 1 = Inr pid'"
    and "proposalCount s' = pid'"
    and "owner s' = owner s" and "memberMerkleRoot s' = memberMerkleRoot s"
    and "govToken s' = govToken s"
    and "\<exists>c. proposals s' = (proposals s)(pid' := (proposals s pid')
           \<lparr>title := ttl, description := descr, mode := md, options := opts, closes := c\<rparr>)"
    and "2 \<le> length opts"
proof -
  from assms obtain c where
    a: "owner s = sender e" "2 \<le> length opts" "checked_add (proposalCount s) 1 = Inr pid'"
       "checked_add (ucast (timestamp e) :: uint64) (ucast duration) = Inr c"
    by (simp add: createProposal_def Let_def split: if_splits sum.splits)
  from assms a have s': "s' = s\<lparr>proposalCount := pid', proposals := (proposals s)(pid' := (proposals s pid')
           \<lparr>title := ttl, description := descr, mode := md, options := opts, closes := c\<rparr>)\<rparr>"
    by (simp add: createProposal_def Let_def push_all_append)
  show "checked_add (proposalCount s) 1 = Inr pid'" by (rule a(3))
  show "2 \<le> length opts" by (rule a(2))
  show "proposalCount s' = pid'" "owner s' = owner s" "memberMerkleRoot s' = memberMerkleRoot s"
    "govToken s' = govToken s"
    by (simp_all add: s')
  show "\<exists>c. proposals s' = (proposals s)(pid' := (proposals s pid')
           \<lparr>title := ttl, description := descr, mode := md, options := opts, closes := c\<rparr>)"
    by (rule exI [of _ c]) (simp add: s')
qed


lemma closeProposal_Inr:
  assumes "closeProposal e s pid = Inr (u, s', evs)"
  shows "\<not> closed (proposals s pid)"
    and "ucast (closes (proposals s pid)) \<le> timestamp e"
    and "s' = s\<lparr>proposals := (proposals s)(pid := (proposals s pid)\<lparr>closed := True\<rparr>)\<rparr>"
    and "\<exists>w. winner_scan ((proposals s pid)\<lparr>closed := True\<rparr>) 0 0xFF 0 = Inr w
             \<and> evs = [ProposalClosed pid w]"
  using assms by (simp_all add: closeProposal_def Let_def split: if_splits sum.splits)

lemma vote_Inr:
  assumes "vote X e s pid opt sg n root prf = Inr (u, s', evs)"
  shows "timestamp e < ucast (closes (proposals s pid))"
    and "unat opt < length (options (proposals s pid))"
    and "\<not> nullifiers (proposals s pid) n"
    and "root = memberMerkleRoot s"
    and "sg = keccak256 X (''VOTE_'' @ decimal (unat opt))"
    and "verifyProof X prf [root, n, sg, pid]"
    and "\<exists>w. vote_weight e s (proposals s pid) = Inr w
           \<and> s' = s\<lparr>proposals := (proposals s)(pid := (proposals s pid)
                  \<lparr>nullifiers := (nullifiers (proposals s pid))(n := True),
                   tally := (tally (proposals s pid))
                     (ucast opt := tally (proposals s pid) (ucast opt) + w)\<rparr>)\<rparr>
           \<and> evs = [ProofVerified pid root n sg, VoteCast pid opt n w]"
  using assms by (simp_all add: vote_eq Let_def split: if_splits sum.splits)

text \<open>What one successful call can do to one proposal.\<close>

lemma dispatch_nullifier:
  assumes "dispatch X e s c = Inr (u, s', evs)" "nullifiers (proposals s pid) n"
  shows "nullifiers (proposals s' pid) n"
proof (cases c)
  case (UpdateMemberRoot newRoot)
  with assms show ?thesis by (auto simp: updateMemberRoot_def split: if_splits)
next
  case (CreateProposal ttl descr md opts duration)
  with assms(1) obtain pid' where "createProposal e s ttl descr md opts duration = Inr (pid', s', evs)"
    by (auto split: sum.splits)
  from createProposal_Inr(6) [OF this] obtain c where
    "proposals s' = (proposals s)(pid' := (proposals s pid')
       \<lparr>title := ttl, description := descr, mode := md, options := opts, closes := c\<rparr>)"
    by blast
  with assms(2) show ?thesis by (cases "pid = pid'") simp_all
next
  case (CloseProposal pid')
  with assms(1) have "closeProposal e s pid' = Inr (u, s', evs)" by simp
  from closeProposal_Inr(3) [OF this] assms(2) show ?thesis
    by (cases "pid = pid'") simp_all
next
  case (Vote pid' opt sg n' root zk)
  with assms(1) have "vote X e s pid' opt sg n' root zk = Inr (u, s', evs)" by simp
  from vote_Inr(7) [OF this] obtain w where
    "s' = s\<lparr>proposals := (proposals s)(pid' := (proposals s pid')
            \<lparr>nullifiers := (nullifiers (proposals s pid'))(n' := True),
             tally := (tally (proposals s pid'))
               (ucast opt := tally (proposals s pid') (ucast opt) + w)\<rparr>)\<rparr>"
    by blast
  with assms(2) show ?thesis by (cases "pid = pid'") simp_all
next
  case (TransferOwnership newOwner)
  with assms show ?thesis by (auto simp: transferOwnership_def split: if_splits)
next
  case RenounceOwnership
  with assms show ?thesis by (auto simp: renounceOwnership_def split: if_splits)
qed

lemma transact_nullifier:
  "nullifiers (proposals s pid) n \<Longrightarrow> nullifiers (proposals (transact X s tx) pid) n"
  using dispatch_nullifier [of X "fst tx" s "snd tx"]
  by (auto simp: transact_def split: sum.splits)

lemma run_nullifier:
  "nullifiers (proposals s pid) n \<Longrightarrow> nullifiers (proposals (run X s txs) pid) n"
  unfolding run_def
  by (induction txs arbitrary: s) (simp_all add: transact_nullifier)

section \<open>Evaluating the example deployment\<close>

lemma decimal_0: "decimal 0 = ''0''" by (simp add: decimal_def)
lemma decimal_1: "decimal (Suc 0) = ''1''"
  by (simp add: decimal_def dec_digits.simps [of "Suc 0"] dec_digits.simps [of 0] digit_char_def)

lemmas ex_defs = ex_X_def ex_env_def ex_storage_def ex_proposal_def toy_hash_def

section \<open>Vote weight\<close>

text \<open>
  C7. The weight of a vote is \<open>1\<close> in Simple mode or without a token, and
  \<open>sqrt\<close> of the sender's balance otherwise. At the balance \<open>2\<^sup>2\<^sup>5\<^sup>6 - 1\<close> the routine
  does not return the floor of the square root (which would be \<open>2\<^sup>1\<^sup>2\<^sup>8 - 1\<close>): its first
  statement, \<open>(x + 1) / 2\<close>, overflows and the call reverts with \<open>Panic(0x11)\<close>, and so
  does the weight computation of a Quadratic vote by such a holder. Every smaller input
  gives the exact floor (\<open>sqrt_exact_below_max\<close>), and an accepted vote adds exactly
  that weight (\<open>accepted_vote_weight\<close>).
\<close>

theorem sqrt_reverts_at_uint256_max:
  "sqrt (2 ^ 256 - 1) = Inl (Panic 0x11)
   \<and> vote_weight (ex_env 100 2 (2 ^ 256 - 1)) (ex_storage Quadratic 9) (ex_proposal Quadratic)
       = Inl (Panic 0x11)"
  by (simp add: sqrt_def checked_add_def vote_weight_def ex_defs)

lemma sqrt_overflow:
  assumes "\<not> unat x < 2 ^ 256 - 1"
  shows "sqrt x = Inl (Panic 0x11)"
proof -
  from assms have "x \<noteq> 0" by auto
  moreover from assms have "\<not> unat x + unat (1 :: uint256) < 2 ^ 256" by simp
  then have "checked_add x 1 = Inl (Panic 0x11)" by (simp add: checked_add_def)
  ultimately show ?thesis by (simp add: sqrt_def)
qed

lemma vote_weight_Inl: "vote_weight e s p = Inl err \<Longrightarrow> err = Panic 0x11"
  using sqrt_overflow [of "getVotes e (sender e)"]
        sqrt_exact_below_max [of "getVotes e (sender e)"]
  by (auto simp: vote_weight_def split: if_splits)

lemma accepted_vote_weight:
  assumes "vote X e s pid opt sg n root prf = Inr (u, s', evs)"
  shows "\<exists>w. tally (proposals s' pid) (ucast opt) = tally (proposals s pid) (ucast opt) + w
           \<and> evs = [ProofVerified pid root n sg, VoteCast pid opt n w]
           \<and> (mode (proposals s pid) = Simple \<or> govToken s = 0 \<longrightarrow> w = 1)
           \<and> (mode (proposals s pid) = Quadratic \<and> govToken s \<noteq> 0 \<longrightarrow>
                (unat w)\<^sup>2 \<le> unat (getVotes e (sender e))
                \<and> unat (getVotes e (sender e)) < (unat w + 1)\<^sup>2)"
proof -
  from vote_Inr(7) [OF assms] obtain w where
    w: "vote_weight e s (proposals s pid) = Inr w"
    and s': "s' = s\<lparr>proposals := (proposals s)(pid := (proposals s pid)
                  \<lparr>nullifiers := (nullifiers (proposals s pid))(n := True),
                   tally := (tally (proposals s pid))
                     (ucast opt := tally (proposals s pid) (ucast opt) + w)\<rparr>)\<rparr>"
    and evs: "evs = [ProofVerified pid root n sg, VoteCast pid opt n w]"
    by blast
  have simple: "mode (proposals s pid) = Simple \<or> govToken s = 0 \<longrightarrow> w = 1"
    using w by (auto simp: vote_weight_def)
  have quad: "mode (proposals s pid) = Quadratic \<and> govToken s \<noteq> 0 \<longrightarrow>
                (unat w)\<^sup>2 \<le> unat (getVotes e (sender e))
                \<and> unat (getVotes e (sender e)) < (unat w + 1)\<^sup>2"
  proof
    assume q: "mode (proposals s pid) = Quadratic \<and> govToken s \<noteq> 0"
    with w have sq: "sqrt (getVotes e (sender e)) = Inr w" by (simp add: vote_weight_def)
    have "unat (getVotes e (sender e)) < 2 ^ 256 - 1"
      using sq sqrt_overflow [of "getVotes e (sender e)"] by auto
    from sqrt_exact_below_max [OF this] sq
    show "(unat w)\<^sup>2 \<le> unat (getVotes e (sender e))
                \<and> unat (getVotes e (sender e)) < (unat w + 1)\<^sup>2" by auto
  qed
  have "tally (proposals s' pid) (ucast opt) = tally (proposals s pid) (ucast opt) + w"
    by (simp add: s')
  with evs simple quad show ?thesis by blast
qed

section \<open>The verifier\<close>

text \<open>
  C2. With the repository's verifier every proof is accepted, so a vote never fails with
  \<open>invalid proof\<close> and its outcome does not depend on the proof bytes
  (\<open>proof_invalid_unreachable\<close>). A submission that passes the five checks is
  nevertheless not always accepted: on a Quadratic proposal, for a sender whose balance is
  \<open>2\<^sup>2\<^sup>5\<^sup>6 - 1\<close>, it reverts with \<open>Panic(0x11)\<close> in \<open>sqrt\<close>, whatever the proof.
\<close>

theorem any_proof_passes_until_sqrt_overflows:
  "revert_of (vote ex_X (ex_env 100 2 (2 ^ 256 - 1)) (ex_storage Quadratic 9) 1 0 6 7 42 prf)
     = Some (Panic 0x11)"
  by (simp add: vote_eq revert_of_def vote_weight_def sqrt_def checked_add_def ex_defs
      SemaphoreVerifier_verifyProof_def decimal_0 Let_def)

lemma mock_verifier_accepts_everything:
  "SemaphoreVerifier_verifyProof prf publicSignals" "Pairing_verify p inputs vk"
  by (simp_all add: SemaphoreVerifier_verifyProof_def Pairing_verify_def)

lemma proof_invalid_unreachable:
  assumes "verifyProof X = SemaphoreVerifier_verifyProof"
  shows "revert_of (vote X e s pid opt sg n root prf) \<noteq> Some (Revert ''invalid proof'')"
    and "vote X e s pid opt sg n root prf = vote X e s pid opt sg n root prf'"
    and "timestamp e < ucast (closes (proposals s pid)) \<Longrightarrow>
         unat opt < length (options (proposals s pid)) \<Longrightarrow>
         \<not> nullifiers (proposals s pid) n \<Longrightarrow> root = memberMerkleRoot s \<Longrightarrow>
         sg = keccak256 X (''VOTE_'' @ decimal (unat opt)) \<Longrightarrow>
         vote_weight e s (proposals s pid) = Inr w \<Longrightarrow>
         \<exists>s' evs. vote X e s pid opt sg n root prf = Inr ((), s', evs)"
  using assms
  by (auto simp: vote_eq revert_of_def SemaphoreVerifier_verifyProof_def Let_def
      split: sum.splits dest: vote_weight_Inl)

section \<open>The signal check\<close>

text \<open>
  C5. On an open proposal, with the option in range, the nullifier fresh and the root
  matching: \<open>_toString\<close> renders the option index in decimal; a \<open>signalHash\<close> different
  from the hash of \<open>VOTE_\<close> followed by that rendering is rejected with
  \<open>signal-option mismatch\<close>, whatever the verifier would say of the proof; and a
  \<open>signalHash\<close> equal to it is never rejected for that reason.
\<close>

theorem signal_must_match_option:
  assumes "timestamp e < ucast (closes (proposals s pid))"
    and "unat opt < length (options (proposals s pid))"
    and "\<not> nullifiers (proposals s pid) n"
    and "root = memberMerkleRoot s"
  shows "toString (ucast opt) = Inr (decimal (unat opt))
    \<and> (sg \<noteq> keccak256 X (''VOTE_'' @ decimal (unat opt)) \<longrightarrow>
         vote X e s pid opt sg n root prf = Inl (Revert ''signal-option mismatch'', s))
    \<and> (sg = keccak256 X (''VOTE_'' @ decimal (unat opt)) \<longrightarrow>
         revert_of (vote X e s pid opt sg n root prf) \<noteq> Some (Revert ''signal-option mismatch''))"
  using assms
  by (auto simp: toString_option vote_eq revert_of_def Let_def
      split: sum.splits dest: vote_weight_Inl)

theorem signal_must_match_option_witness:
  "timestamp (ex_env 100 2 0) < ucast (closes (proposals (ex_storage Simple 0) 1))
   \<and> unat (1 :: uint8) < length (options (proposals (ex_storage Simple 0) 1))
   \<and> \<not> nullifiers (proposals (ex_storage Simple 0) 1) 7
   \<and> 42 = memberMerkleRoot (ex_storage Simple 0)
   \<and> decimal (unat (1 :: uint8)) = ''1''
   \<and> 5 \<noteq> keccak256 ex_X (''VOTE_'' @ decimal (unat (1 :: uint8)))
   \<and> vote ex_X (ex_env 100 2 0) (ex_storage Simple 0) 1 1 5 7 42 []
       = Inl (Revert ''signal-option mismatch'', ex_storage Simple 0)
   \<and> 6 = keccak256 ex_X (''VOTE_'' @ decimal (unat (1 :: uint8)))
   \<and> revert_of (vote ex_X (ex_env 100 2 0) (ex_storage Simple 0) 1 1 6 7 42 [])
       \<noteq> Some (Revert ''signal-option mismatch'')"
proof -
  have h: "timestamp (ex_env 100 2 0) < ucast (closes (proposals (ex_storage Simple 0) 1))"
    "unat (1 :: uint8) < length (options (proposals (ex_storage Simple 0) 1))"
    "\<not> nullifiers (proposals (ex_storage Simple 0) 1) 7"
    "42 = memberMerkleRoot (ex_storage Simple 0)"
    by (simp_all add: ex_defs)
  have k: "keccak256 ex_X (''VOTE_'' @ decimal (unat (1 :: uint8))) = 6"
    by (simp add: ex_defs decimal_1)
  from signal_must_match_option [OF h, of 5 ex_X "[]"]
       signal_must_match_option [OF h, of 6 ex_X "[]"] h k
  show ?thesis by (simp add: decimal_1)
qed

section \<open>Failed votes\<close>

text \<open>
  C4. A vote that fails changes nothing: the transaction leaves the whole storage
  (tallies, nullifier sets, membership root, proposal count) as it was; every failed
  \<open>require\<close> happens before the first write, so the storage at the point of the revert is
  still the initial one; and a vote whose option index is not below the number of options
  always fails, with \<open>invalid option\<close> when the proposal has not reached its closing time.
\<close>

theorem failed_vote_changes_nothing:
  "(vote X e s pid opt sg n root prf = Inl (err, st) \<longrightarrow>
      transact X s (e, Vote pid opt sg n root prf) = s)
   \<and> (vote X e s pid opt sg n root prf = Inl (Revert msg, st) \<longrightarrow> st = s)
   \<and> (\<not> unat opt < length (options (proposals s pid)) \<longrightarrow>
        vote X e s pid opt sg n root prf
          = Inl (Revert (if timestamp e < ucast (closes (proposals s pid))
                         then ''invalid option'' else ''voting is closed''), s))"
  by (auto simp: transact_def vote_eq Let_def split: sum.splits if_splits dest: vote_weight_Inl)

theorem failed_vote_changes_nothing_witness:
  "vote ex_X (ex_env 100 2 0) (ex_storage Simple 0) 1 2 6 7 42 []
     = Inl (Revert ''invalid option'', ex_storage Simple 0)
   \<and> transact ex_X (ex_storage Simple 0) (ex_env 100 2 0, Vote 1 2 6 7 42 []) = ex_storage Simple 0
   \<and> \<not> unat (2 :: uint8) < length (options (proposals (ex_storage Simple 0) 1))"
proof -
  have h: "\<not> unat (2 :: uint8) < length (options (proposals (ex_storage Simple 0) 1))"
    by (simp add: ex_defs)
  have t: "timestamp (ex_env 100 2 0) < ucast (closes (proposals (ex_storage Simple 0) 1))"
    by (simp add: ex_defs)
  from failed_vote_changes_nothing
    [of ex_X "ex_env 100 2 0" "ex_storage Simple 0" 1 2 6 7 42 "[]"
        "Revert ''invalid option''" "ex_storage Simple 0" "''invalid option''"] h t
  show ?thesis by simp
qed

section \<open>Votes and the closing time\<close>

text \<open>
  At the closing time \<open>300\<close> of the example proposal a vote that is accepted at time
  \<open>299\<close> is rejected with \<open>voting is closed\<close>.
\<close>

theorem vote_at_close_time_counterexample:
  "revert_of (vote ex_X (ex_env 300 2 0) (ex_storage Simple 0) 1 0 6 7 42 [])
     = Some (Revert ''voting is closed'')
   \<and> ucast (closes (proposals (ex_storage Simple 0) 1)) \<le> timestamp (ex_env 300 2 0)
   \<and> revert_of (vote ex_X (ex_env 299 2 0) (ex_storage Simple 0) 1 0 6 7 42 []) = None"
  by (simp add: vote_eq revert_of_def vote_weight_def ex_defs decimal_0 Let_def
      SemaphoreVerifier_verifyProof_def)

text \<open>
  C6, as the code has it. A vote submitted at or after the closing time is rejected with
  \<open>voting is closed\<close>. Hence every accepted vote lands before the closing time, leaves the
  \<open>closed\<close> flag as it was and emits only the proof-verified and vote-cast events: the
  automatic closure at the end of \<open>vote\<close> never runs, and a proposal is closed only by a
  call of \<open>closeProposal\<close>.
\<close>

theorem no_vote_at_or_after_close:
  "(ucast (closes (proposals s pid)) \<le> timestamp e \<longrightarrow>
      vote X e s pid opt sg n root prf = Inl (Revert ''voting is closed'', s))
   \<and> (vote X e s pid opt sg n root prf = Inr (u, s', evs) \<longrightarrow>
        timestamp e < ucast (closes (proposals s pid))
        \<and> closed (proposals s' pid) = closed (proposals s pid)
        \<and> evs = [ProofVerified pid root n sg,
                  VoteCast pid opt n (tally (proposals s' pid) (ucast opt)
                                       - tally (proposals s pid) (ucast opt))])"
proof (intro conjI impI)
  assume "ucast (closes (proposals s pid)) \<le> timestamp e"
  then show "vote X e s pid opt sg n root prf = Inl (Revert ''voting is closed'', s)"
    by (simp add: vote_eq Let_def leD)
next
  assume a: "vote X e s pid opt sg n root prf = Inr (u, s', evs)"
  from vote_Inr(1) [OF a] show "timestamp e < ucast (closes (proposals s pid))" .
  from vote_Inr(7) [OF a] obtain w where
    s': "s' = s\<lparr>proposals := (proposals s)(pid := (proposals s pid)
                  \<lparr>nullifiers := (nullifiers (proposals s pid))(n := True),
                   tally := (tally (proposals s pid))
                     (ucast opt := tally (proposals s pid) (ucast opt) + w)\<rparr>)\<rparr>"
    and evs: "evs = [ProofVerified pid root n sg, VoteCast pid opt n w]"
    by blast
  show "closed (proposals s' pid) = closed (proposals s pid)" by (simp add: s')
  show "evs = [ProofVerified pid root n sg,
                  VoteCast pid opt n (tally (proposals s' pid) (ucast opt)
                                       - tally (proposals s pid) (ucast opt))]"
    by (simp add: s' evs)
qed

theorem no_vote_at_or_after_close_witness:
  "ucast (closes (proposals (ex_storage Simple 0) 1)) \<le> timestamp (ex_env 301 2 0)
   \<and> vote ex_X (ex_env 301 2 0) (ex_storage Simple 0) 1 0 6 7 42 []
       = Inl (Revert ''voting is closed'', ex_storage Simple 0)
   \<and> revert_of (vote ex_X (ex_env 299 2 0) (ex_storage Simple 0) 1 0 6 7 42 []) = None
   \<and> \<not> closed (proposals (run ex_X (ex_storage Simple 0) [(ex_env 299 2 0, Vote 1 0 6 7 42 [])]) 1)"
proof -
  have h: "ucast (closes (proposals (ex_storage Simple 0) 1)) \<le> timestamp (ex_env 301 2 0)"
    by (simp add: ex_defs)
  have r: "revert_of (vote ex_X (ex_env 299 2 0) (ex_storage Simple 0) 1 0 6 7 42 []) = None"
    by (simp add: vote_eq revert_of_def vote_weight_def ex_defs decimal_0 Let_def
      SemaphoreVerifier_verifyProof_def)
  then obtain u s' evs where
    v: "vote ex_X (ex_env 299 2 0) (ex_storage Simple 0) 1 0 6 7 42 [] = Inr (u, s', evs)"
    by (auto simp: revert_of_def split: sum.splits)
  then have run: "run ex_X (ex_storage Simple 0) [(ex_env 299 2 0, Vote 1 0 6 7 42 [])] = s'"
    by (simp add: run_def transact_def)
  have c: "\<not> closed (proposals (ex_storage Simple 0) 1)" by (simp add: ex_defs)
  from no_vote_at_or_after_close
         [of "ex_storage Simple 0" 1 "ex_env 301 2 0" ex_X 0 6 7 42 "[]"] h
  have 1: "vote ex_X (ex_env 301 2 0) (ex_storage Simple 0) 1 0 6 7 42 []
       = Inl (Revert ''voting is closed'', ex_storage Simple 0)" by blast
  from no_vote_at_or_after_close
         [of "ex_storage Simple 0" 1 "ex_env 299 2 0" ex_X 0 6 7 42 "[]" u s' evs] v c
  have 2: "\<not> closed (proposals s' 1)" by blast
  from h 1 r 2 run show ?thesis by simp
qed

section \<open>Nullifiers\<close>

lemma ex_first_vote:
  "vote ex_X (ex_env 100 2 0) (ex_storage Simple 0) 1 0 6 7 42 []
     = Inr ((), (ex_storage Simple 0)\<lparr>proposals := (proposals (ex_storage Simple 0))
               (1 := (ex_proposal Simple)\<lparr>nullifiers := (\<lambda>_. False)(7 := True),
                                          tally := (\<lambda>_. 0)(0 := 1)\<rparr>)\<rparr>,
            [ProofVerified 1 42 7 6, VoteCast 1 0 7 1])"
  by (simp add: vote_eq vote_weight_def ex_defs decimal_0 Let_def
      SemaphoreVerifier_verifyProof_def)

text \<open>
  After nullifier \<open>7\<close> has been accepted on the example proposal, a second vote carrying
  it with option index \<open>2\<close> is rejected with \<open>invalid option\<close>, and one submitted at the
  closing time with \<open>voting is closed\<close>: not with \<open>vote already cast\<close>.
\<close>

theorem replayed_nullifier_counterexample:
  "revert_of (vote ex_X (ex_env 100 2 0) (ex_storage Simple 0) 1 0 6 7 42 []) = None
   \<and> revert_of (vote ex_X (ex_env 100 2 0)
        (run ex_X (ex_storage Simple 0) [(ex_env 100 2 0, Vote 1 0 6 7 42 [])]) 1 2 6 7 42 [])
       = Some (Revert ''invalid option'')
   \<and> revert_of (vote ex_X (ex_env 300 2 0)
        (run ex_X (ex_storage Simple 0) [(ex_env 100 2 0, Vote 1 0 6 7 42 [])]) 1 0 6 7 42 [])
       = Some (Revert ''voting is closed'')"
  by (simp add: run_def transact_def ex_first_vote revert_of_def)
     (simp add: vote_eq ex_defs Let_def)

text \<open>
  C1, as the code has it. Once a vote with nullifier \<open>n\<close> on proposal \<open>pid\<close> has been
  accepted, then after any further transactions every vote on \<open>pid\<close> carrying \<open>n\<close> is
  rejected and leaves the storage unchanged. The checks run in order, so the reason is
  \<open>voting is closed\<close> at or after the closing time, \<open>invalid option\<close> for an option index
  out of range, and \<open>vote already cast\<close> in every other case.
\<close>

theorem used_nullifier_is_rejected:
  assumes "vote X e s pid opt sg n root prf = Inr (u, s1, evs)"
  shows "vote X e' (run X s1 txs) pid opt' sg' n root' prf'
           = Inl (Revert (if \<not> timestamp e' < ucast (closes (proposals (run X s1 txs) pid))
                          then ''voting is closed''
                          else if \<not> unat opt' < length (options (proposals (run X s1 txs) pid))
                          then ''invalid option''
                          else ''vote already cast''),
                  run X s1 txs)
         \<and> transact X (run X s1 txs) (e', Vote pid opt' sg' n root' prf') = run X s1 txs"
proof -
  from vote_Inr(7) [OF assms] have "nullifiers (proposals s1 pid) n" by auto
  then have used: "nullifiers (proposals (run X s1 txs) pid) n" by (rule run_nullifier)
  then have v: "vote X e' (run X s1 txs) pid opt' sg' n root' prf'
           = Inl (Revert (if \<not> timestamp e' < ucast (closes (proposals (run X s1 txs) pid))
                          then ''voting is closed''
                          else if \<not> unat opt' < length (options (proposals (run X s1 txs) pid))
                          then ''invalid option''
                          else ''vote already cast''),
                  run X s1 txs)"
    by (simp add: vote_eq Let_def)
  then have "transact X (run X s1 txs) (e', Vote pid opt' sg' n root' prf') = run X s1 txs"
    by (simp add: transact_def)
  with v show ?thesis by blast
qed

theorem used_nullifier_is_rejected_witness:
  "revert_of (vote ex_X (ex_env 100 2 0) (ex_storage Simple 0) 1 0 6 7 42 []) = None
   \<and> revert_of (vote ex_X (ex_env 200 3 0)
        (run ex_X (run ex_X (ex_storage Simple 0) [(ex_env 100 2 0, Vote 1 0 6 7 42 [])])
           [(ex_env 150 4 0, Vote 1 1 6 8 42 [])]) 1 1 6 7 42 [])
       = Some (Revert ''vote already cast'')"
proof -
  have r: "run ex_X (ex_storage Simple 0) [(ex_env 100 2 0, Vote 1 0 6 7 42 [])]
             = (ex_storage Simple 0)\<lparr>proposals := (proposals (ex_storage Simple 0))
               (1 := (ex_proposal Simple)\<lparr>nullifiers := (\<lambda>_. False)(7 := True),
                                          tally := (\<lambda>_. 0)(0 := 1)\<rparr>)\<rparr>"
    by (simp add: run_def transact_def ex_first_vote)
  let ?s1 = "run ex_X (ex_storage Simple 0) [(ex_env 100 2 0, Vote 1 0 6 7 42 [])]"
  let ?s2 = "run ex_X ?s1 [(ex_env 150 4 0, Vote 1 1 6 8 42 [])]"
  have s2: "closes (proposals ?s2 1) = 300 \<and> options (proposals ?s2 1) = [''Yes'', ''No'']"
    unfolding r
    by (simp add: run_def transact_def vote_eq vote_weight_def ex_defs decimal_1 Let_def
        SemaphoreVerifier_verifyProof_def)
  have t: "timestamp (ex_env 200 3 0) = 200" by (simp add: ex_defs)
  from used_nullifier_is_rejected
    [of ex_X "ex_env 100 2 0" "ex_storage Simple 0" 1 0 6 7 42 "[]" _ ?s1 _
        "ex_env 200 3 0" "[(ex_env 150 4 0, Vote 1 1 6 8 42 [])]" 1 6 42 "[]"]
       ex_first_vote r
  have "vote ex_X (ex_env 200 3 0) ?s2 1 1 6 7 42 []
          = Inl (Revert (if \<not> timestamp (ex_env 200 3 0) < ucast (closes (proposals ?s2 1))
                          then ''voting is closed''
                          else if \<not> unat (1 :: uint8) < length (options (proposals ?s2 1))
                          then ''invalid option''
                          else ''vote already cast''), ?s2)"
    by simp
  then have "revert_of (vote ex_X (ex_env 200 3 0) ?s2 1 1 6 7 42 [])
               = Some (Revert ''vote already cast'')"
    by (simp add: revert_of_def s2 t)
  moreover have "revert_of (vote ex_X (ex_env 100 2 0) (ex_storage Simple 0) 1 0 6 7 42 []) = None"
    by (simp add: ex_first_vote revert_of_def)
  ultimately show ?thesis by simp
qed

section \<open>The winner scan\<close>

lemma next_index:
  fixes i :: uint8
  assumes "unat i < 255"
  shows "checked_add i 1 = Inr (i + 1)" "unat (i + 1) = unat i + 1"
proof -
  from assms have b: "unat i + unat (1 :: uint8) < 2 ^ LENGTH(8)" by simp
  then show "checked_add i 1 = Inr (i + 1)" by (simp add: checked_add_def)
  from b have "unat (i + 1) = unat i + unat (1 :: uint8)"
    by (simp only: unat_add_lem [THEN iffD1])
  then show "unat (i + 1) = unat i + 1" by simp
qed

lemma scan_after_leader:
  assumes len: "length (options p) \<le> 255"
    and lead: "\<forall>j. unat j < length (options p) \<longrightarrow> j \<noteq> k \<longrightarrow> tally p (ucast j) < tally p (ucast k)"
  shows "unat k < unat i \<Longrightarrow> unat i \<le> length (options p) \<Longrightarrow>
         winner_scan p i k (tally p (ucast k)) = Inr k"
proof (induction "length (options p) - unat i" arbitrary: i)
  case 0
  then have "\<not> unat i < length (options p)" by simp
  then show ?case by (subst winner_scan.simps) simp
next
  case (Suc m)
  then have lt: "unat i < length (options p)" by simp
  with len have i255: "unat i < 255" by simp
  from Suc.prems(1) have "i \<noteq> k" by auto
  with lead lt have v: "tally p (ucast i) < tally p (ucast k)" by blast
  have "winner_scan p (i + 1) k (tally p (ucast k)) = Inr k"
    using Suc.hyps(2) Suc.prems lt next_index(2) [OF i255]
    by (intro Suc.hyps(1)) simp_all
  then show ?case
    using lt v next_index(1) [OF i255]
    by (subst winner_scan.simps) (auto simp: Let_def)
qed

lemma scan_up_to_leader:
  assumes len: "length (options p) \<le> 255"
    and lead: "\<forall>j. unat j < length (options p) \<longrightarrow> j \<noteq> k \<longrightarrow> tally p (ucast j) < tally p (ucast k)"
    and k: "unat k < length (options p)"
  shows "unat i \<le> unat k \<Longrightarrow> high < tally p (ucast k) \<Longrightarrow> winner_scan p i w high = Inr k"
proof (induction "unat k - unat i" arbitrary: i w high)
  case 0
  then have "unat i = unat k" by simp
  then have ik: "i = k" by (rule word_unat_eq_iff [THEN iffD2])
  from k len have k255: "unat k < 255" by simp
  have "winner_scan p (k + 1) k (tally p (ucast k)) = Inr k"
    using k next_index(2) [OF k255] by (intro scan_after_leader [OF len lead]) simp_all
  then show ?case
    using k "0.prems"(2) next_index(1) [OF k255] unfolding ik
    by (subst winner_scan.simps) (simp add: Let_def)
next
  case (Suc m)
  then have lt: "unat i < unat k" by simp
  with k have ilt: "unat i < length (options p)" by simp
  with len have i255: "unat i < 255" by simp
  from lt have "i \<noteq> k" by auto
  with lead ilt have v: "tally p (ucast i) < tally p (ucast k)" by blast
  define high' where "high' = (if high < tally p (ucast i) then tally p (ucast i) else high)"
  define w' where "w' = (if high < tally p (ucast i) then i
                         else if tally p (ucast i) = high then 0xFF else w)"
  have h': "high' < tally p (ucast k)" using v Suc.prems(2) by (simp add: high'_def)
  have "winner_scan p (i + 1) w' high' = Inr k"
    using Suc.hyps(2) lt next_index(2) [OF i255] h'
    by (intro Suc.hyps(1)) simp_all
  then show ?case
    using ilt next_index(1) [OF i255]
    by (subst winner_scan.simps) (simp add: Let_def high'_def w'_def)
qed

lemma leader_has_votes:
  assumes two: "2 \<le> length (options p)"
    and lead: "\<forall>j::uint8. unat j < length (options p) \<longrightarrow> j \<noteq> k \<longrightarrow> tally p (ucast j) < tally p (ucast k)"
  shows "0 < tally p (ucast k)"
proof -
  obtain j :: uint8 where j: "unat j < length (options p)" "j \<noteq> k"
  proof (cases "k = 0")
    case True
    have "unat (1 :: uint8) < length (options p)" using two by simp
    with True that [of 1] show ?thesis by simp
  next
    case False
    have "unat (0 :: uint8) < length (options p)" using two by auto
    with False that [of 0] show ?thesis by auto
  qed
  with lead have "tally p (ucast j) < tally p (ucast k)" by blast
  then have "unat (tally p (ucast j)) < unat (tally p (ucast k))"
    by (simp add: word_less_nat_alt)
  then have "0 < unat (tally p (ucast k))" by simp
  then show ?thesis by (simp add: word_less_nat_alt)
qed

text \<open>
  C3, as the code has it. When a proposal with between 2 and 255 options is closed and
  one option has a tally strictly above every other, \<open>closeProposal\<close> reports that
  option, whether or not other options have zero votes. A zero tally resets the winner
  only while the running maximum is still zero, when no leader has been recorded yet.
\<close>

theorem unique_leader_wins:
  assumes "\<not> closed (proposals s pid)"
    and "ucast (closes (proposals s pid)) \<le> timestamp e"
    and "2 \<le> length (options (proposals s pid))"
    and "length (options (proposals s pid)) \<le> 255"
    and "unat k < length (options (proposals s pid))"
    and "\<forall>j::uint8. unat j < length (options (proposals s pid)) \<longrightarrow> j \<noteq> k \<longrightarrow>
           tally (proposals s pid) (ucast j) < tally (proposals s pid) (ucast k)"
  shows "closeProposal e s pid
           = Inr ((), s\<lparr>proposals := (proposals s)(pid := (proposals s pid)\<lparr>closed := True\<rparr>)\<rparr>,
                  [ProposalClosed pid k])"
proof -
  let ?p = "(proposals s pid)\<lparr>closed := True\<rparr>"
  have pos: "0 < tally ?p (ucast k)" using leader_has_votes [OF assms(3) assms(6)] by simp
  have "winner_scan ?p 0 0xFF 0 = Inr k"
    using assms(4,5,6) pos by (intro scan_up_to_leader) simp_all
  then show ?thesis using assms(1,2) by (simp add: closeProposal_def Let_def)
qed

lemmas ex_tallied_defs = ex_tallied_def ex_defs

text \<open>
  The tallies \<open>[0, 5]\<close> give winner \<open>1\<close>, and \<open>[5, 0]\<close> winner \<open>0\<close>: the single leader,
  not the sentinel \<open>255\<close>. The sentinel is reported for the ties \<open>[5, 5]\<close> and
  \<open>[0, 0]\<close>.
\<close>

theorem zero_tally_counterexample:
  "events_of (closeProposal (ex_env 300 2 0) (ex_tallied 0 5) 1) = [ProposalClosed 1 1]
   \<and> events_of (closeProposal (ex_env 300 2 0) (ex_tallied 5 0) 1) = [ProposalClosed 1 0]
   \<and> events_of (closeProposal (ex_env 300 2 0) (ex_tallied 5 5) 1) = [ProposalClosed 1 0xFF]
   \<and> events_of (closeProposal (ex_env 300 2 0) (ex_tallied 0 0) 1) = [ProposalClosed 1 0xFF]"
  by (simp add: closeProposal_def events_of_def ex_tallied_defs Let_def
      winner_scan.simps checked_add_def)


theorem unique_leader_wins_witness:
  "\<not> closed (proposals (ex_tallied 2 7) 1)
   \<and> ucast (closes (proposals (ex_tallied 2 7) 1)) \<le> timestamp (ex_env 300 2 0)
   \<and> length (options (proposals (ex_tallied 2 7) 1)) = 2
   \<and> tally (proposals (ex_tallied 2 7) 1) 0 = 2
   \<and> tally (proposals (ex_tallied 2 7) 1) 1 = 7
   \<and> events_of (closeProposal (ex_env 300 2 0) (ex_tallied 2 7) 1) = [ProposalClosed 1 1]"
proof -
  let ?s = "ex_tallied 2 7"
  have h: "\<not> closed (proposals ?s 1)"
    "ucast (closes (proposals ?s 1)) \<le> timestamp (ex_env 300 2 0)"
    "2 \<le> length (options (proposals ?s 1))"
    "length (options (proposals ?s 1)) \<le> 255"
    "unat (1 :: uint8) < length (options (proposals ?s 1))"
    by (simp_all add: ex_tallied_defs)
  have lead: "\<forall>j::uint8. unat j < length (options (proposals ?s 1)) \<longrightarrow> j \<noteq> 1 \<longrightarrow>
                tally (proposals ?s 1) (ucast j) < tally (proposals ?s 1) (ucast (1 :: uint8))"
  proof (intro allI impI)
    fix j :: uint8
    assume "unat j < length (options (proposals ?s 1))" and "j \<noteq> 1"
    then have "unat j < 2" and "unat j \<noteq> 1"
      by (simp_all add: ex_tallied_defs word_unat_eq_iff)
    then have "unat j = 0" by simp
    then have "j = 0" by (simp add: word_unat_eq_iff)
    then show "tally (proposals ?s 1) (ucast j) < tally (proposals ?s 1) (ucast (1 :: uint8))"
      by (simp add: ex_tallied_defs)
  qed
  from unique_leader_wins [OF h lead]
  have "events_of (closeProposal (ex_env 300 2 0) ?s 1) = [ProposalClosed 1 1]"
    by (simp add: events_of_def)
  moreover have "length (options (proposals ?s 1)) = 2" "tally (proposals ?s 1) 0 = 2"
    "tally (proposals ?s 1) 1 = 7"
    by (simp_all add: ex_tallied_defs)
  ultimately show ?thesis using h by simp
qed

section \<open>Proposals with 256 or more options\<close>

lemma scan_overflows:
  assumes "256 \<le> length (options p)"
  shows "winner_scan p i w high = Inl (Panic 0x11)"
proof (induction "255 - unat i" arbitrary: i w high)
  case 0
  have "unat i < 2 ^ LENGTH(8)" by (rule unsigned_less)
  with 0 have i: "unat i = 255" by simp
  then have "checked_add i 1 = Inl (Panic 0x11)" by (simp add: checked_add_def)
  then show ?case using i assms by (subst winner_scan.simps) (simp add: Let_def)
next
  case (Suc m)
  then have i255: "unat i < 255" by simp
  have "\<And>w' high'. winner_scan p (i + 1) w' high' = Inl (Panic 0x11)"
    using Suc.hyps(2) next_index(2) [OF i255] by (intro Suc.hyps(1)) simp
  then show ?case
    using i255 assms next_index(1) [OF i255]
    by (subst winner_scan.simps) (simp add: Let_def)
qed

lemma closeProposal_many_options:
  assumes "256 \<le> length (options (proposals s pid))"
  shows "closeProposal e s pid =
     (if closed (proposals s pid) then Inl (Revert ''already closed'', s)
      else if \<not> ucast (closes (proposals s pid)) \<le> timestamp e then Inl (Revert ''not expired'', s)
      else Inl (Panic 0x11,
                s\<lparr>proposals := (proposals s)(pid := (proposals s pid)\<lparr>closed := True\<rparr>)\<rparr>))"
proof -
  have "winner_scan ((proposals s pid)\<lparr>closed := True\<rparr>) 0 0xFF 0 = Inl (Panic 0x11)"
    using assms by (intro scan_overflows) simp
  then show ?thesis by (simp add: closeProposal_def Let_def)
qed

lemma succ_not_below:
  fixes pid c :: "'a::len word"
  assumes "checked_add c 1 = Inr c'" "pid \<le> c"
  shows "pid \<noteq> c'" "c < c'" "c' \<noteq> 0"
proof -
  from assms(1) have c': "c' = c + 1" and b: "unat c + unat (1 :: 'a word) < 2 ^ LENGTH('a)"
    by (auto simp: checked_add_def split: if_splits)
  have "unat (c + 1) = unat c + unat (1 :: 'a word)"
    using b by (simp only: unat_add_lem [THEN iffD1])
  then have u: "unat c' = unat c + 1" using c' by simp
  then show "c < c'" by (simp add: word_less_nat_alt)
  from assms(2) have "unat pid \<le> unat c" by (simp add: word_le_nat_alt)
  with u show "pid \<noteq> c'" by auto
  from u show "c' \<noteq> 0" by auto
qed

text \<open>What a successful call leaves alone in a proposal that has been created.\<close>

lemma dispatch_created:
  assumes d: "dispatch X e s c = Inr (u, s', evs)" and cr: "created s pid"
  shows "created s' pid"
    and "options (proposals s' pid) = options (proposals s pid)"
    and "closes (proposals s' pid) = closes (proposals s pid)"
    and "256 \<le> length (options (proposals s pid)) \<Longrightarrow>
         closed (proposals s' pid) = closed (proposals s pid)"
proof -
  have "created s' pid \<and> options (proposals s' pid) = options (proposals s pid)
        \<and> closes (proposals s' pid) = closes (proposals s pid)
        \<and> (256 \<le> length (options (proposals s pid)) \<longrightarrow>
             closed (proposals s' pid) = closed (proposals s pid))"
  proof (cases c)
    case (UpdateMemberRoot newRoot)
    with d cr show ?thesis by (auto simp: updateMemberRoot_def created_def split: if_splits)
  next
    case (CreateProposal ttl descr md opts duration)
    with d obtain pid' where
      c: "createProposal e s ttl descr md opts duration = Inr (pid', s', evs)"
      by (auto split: sum.splits)
    from cr have le: "pid \<le> proposalCount s" by (simp add: created_def)
    note fresh = succ_not_below [OF createProposal_Inr(1) [OF c] le]
    from createProposal_Inr(6) [OF c] obtain cl where
      "proposals s' = (proposals s)(pid' := (proposals s pid')
         \<lparr>title := ttl, description := descr, mode := md, options := opts, closes := cl\<rparr>)"
      by blast
    with fresh(1) have same: "proposals s' pid = proposals s pid" by simp
    have "pid \<le> proposalCount s'"
      using le fresh(2) createProposal_Inr(2) [OF c] by simp
    with cr same show ?thesis by (simp add: created_def)
  next
    case (CloseProposal pid')
    with d have c: "closeProposal e s pid' = Inr (u, s', evs)" by simp
    note s' = closeProposal_Inr(3) [OF c]
    have "256 \<le> length (options (proposals s pid)) \<Longrightarrow> pid' \<noteq> pid"
      using c closeProposal_many_options [of s pid e] by (auto split: if_splits)
    with cr show ?thesis unfolding s' by (cases "pid = pid'") (auto simp: created_def)
  next
    case (Vote pid' opt sg n root zk)
    with d have "vote X e s pid' opt sg n root zk = Inr (u, s', evs)" by simp
    from vote_Inr(7) [OF this] obtain w where
      "s' = s\<lparr>proposals := (proposals s)(pid' := (proposals s pid')
              \<lparr>nullifiers := (nullifiers (proposals s pid'))(n := True),
               tally := (tally (proposals s pid'))
                 (ucast opt := tally (proposals s pid') (ucast opt) + w)\<rparr>)\<rparr>"
      by blast
    with cr show ?thesis by (cases "pid = pid'") (simp_all add: created_def)
  next
    case (TransferOwnership newOwner)
    with d cr show ?thesis by (auto simp: transferOwnership_def created_def split: if_splits)
  next
    case RenounceOwnership
    with d cr show ?thesis by (auto simp: renounceOwnership_def created_def split: if_splits)
  qed
  then show "created s' pid"
    and "options (proposals s' pid) = options (proposals s pid)"
    and "closes (proposals s' pid) = closes (proposals s pid)"
    and "256 \<le> length (options (proposals s pid)) \<Longrightarrow>
         closed (proposals s' pid) = closed (proposals s pid)"
    by simp_all
qed

lemma transact_created:
  assumes "created s pid"
  shows "created (transact X s tx) pid"
    and "options (proposals (transact X s tx) pid) = options (proposals s pid)"
    and "closes (proposals (transact X s tx) pid) = closes (proposals s pid)"
    and "256 \<le> length (options (proposals s pid)) \<Longrightarrow>
         closed (proposals (transact X s tx) pid) = closed (proposals s pid)"
  using dispatch_created [of X "fst tx" s "snd tx" _ _ _ pid] assms
  by (auto simp: transact_def split: sum.splits)

lemma run_created:
  "created s pid \<Longrightarrow>
   created (run X s txs) pid
   \<and> options (proposals (run X s txs) pid) = options (proposals s pid)
   \<and> closes (proposals (run X s txs) pid) = closes (proposals s pid)
   \<and> (256 \<le> length (options (proposals s pid)) \<longrightarrow>
        closed (proposals (run X s txs) pid) = closed (proposals s pid))"
proof (induction txs arbitrary: s)
  case Nil
  then show ?case by (simp add: run_def)
next
  case (Cons tx txs)
  note t = transact_created [OF Cons.prems, of X tx]
  have r: "run X s (tx # txs) = run X (transact X s tx) txs" by (simp add: run_def)
  from Cons.IH [OF t(1)] t(2,3,4) show ?case unfolding r by auto
qed

text \<open>
  C10. For a created proposal with 256 or more options, after any sequence of
  transactions, \<open>closeProposal\<close> fails: with \<open>already closed\<close> or \<open>not expired\<close> when one
  of its two checks fails, and otherwise, the closing time having passed, with
  \<open>Panic(0x11)\<close>, because the \<open>uint8\<close> counter of the winner scan overflows at \<open>255\<close>.
  The transaction changes nothing, and the \<open>closed\<close> flag of the proposal stays what it
  was. \<open>createProposal\<close> accepts any number of options from two up
  (\<open>createProposal_no_upper_bound\<close>, stated after the witness).
\<close>

theorem cannot_close_256_options:
  assumes "created s pid" and "256 \<le> length (options (proposals s pid))"
  shows "revert_of (closeProposal e (run X s txs) pid) =
           Some (if closed (proposals s pid) then Revert ''already closed''
                 else if \<not> ucast (closes (proposals s pid)) \<le> timestamp e then Revert ''not expired''
                 else Panic 0x11)
         \<and> closed (proposals (run X s txs) pid) = closed (proposals s pid)
         \<and> transact X (run X s txs) (e, CloseProposal pid) = run X s txs"
proof -
  from run_created [OF assms(1), of X txs] assms(2)
  have r: "options (proposals (run X s txs) pid) = options (proposals s pid)"
    "closes (proposals (run X s txs) pid) = closes (proposals s pid)"
    "closed (proposals (run X s txs) pid) = closed (proposals s pid)"
    by simp_all
  with assms(2) have "256 \<le> length (options (proposals (run X s txs) pid))" by simp
  note c = closeProposal_many_options [OF this, of e]
  show ?thesis using r by (simp add: c revert_of_def transact_def)
qed


theorem cannot_close_256_options_witness:
  "created ex_many_options 1
   \<and> 256 \<le> length (options (proposals ex_many_options 1))
   \<and> revert_of (closeProposal (ex_env 300 2 0)
         (run ex_X ex_many_options [(ex_env 100 2 0, Vote 1 0 6 7 42 [])]) 1) = Some (Panic 0x11)
   \<and> closed (proposals (run ex_X ex_many_options [(ex_env 100 2 0, Vote 1 0 6 7 42 [])]) 1)
       = False"
proof -
  have h: "created ex_many_options 1" "256 \<le> length (options (proposals ex_many_options 1))"
    by (simp_all add: created_def ex_many_options_def ex_defs)
  have c: "closed (proposals ex_many_options 1) = False"
    "ucast (closes (proposals ex_many_options 1)) \<le> timestamp (ex_env 300 2 0)"
    by (simp_all add: ex_many_options_def ex_defs)
  from cannot_close_256_options
         [OF h, of "ex_env 300 2 0" ex_X "[(ex_env 100 2 0, Vote 1 0 6 7 42 [])]"] h c
  show ?thesis by simp
qed

lemma createProposal_no_upper_bound:
  assumes "owner s = sender e" and "2 \<le> length opts"
    and "unat (proposalCount s) + 1 < 2 ^ 256"
    and "unat (ucast (timestamp e) :: uint64) + unat (ucast duration :: uint64) < 2 ^ 64"
  shows "\<exists>pid s' evs. createProposal e s ttl descr md opts duration = Inr (pid, s', evs)
           \<and> options (proposals s' pid) = opts \<and> created s' pid"
proof -
  from assms(3) have a: "checked_add (proposalCount s) 1 = Inr (proposalCount s + 1)"
    by (simp add: checked_add_def)
  from assms(4) have b: "checked_add (ucast (timestamp e) :: uint64) (ucast duration)
                           = Inr (ucast (timestamp e) + ucast duration)"
    by (simp add: checked_add_def)
  have nz: "proposalCount s + 1 \<noteq> 0"
    using succ_not_below(3) [OF a order_refl] .
  show ?thesis
    using assms(1,2) a b nz
    by (simp add: createProposal_def Let_def push_all_append created_def)
qed

section \<open>\<open>getProposal\<close> on unknown ids\<close>

lemma constructor_blank:
  "constructor a root tok = Inr (s0, evs) \<Longrightarrow> blank_outside s0"
  by (auto simp: constructor_def blank_outside_def blank_def empty_Proposal_def split: if_splits)

lemma dispatch_blank:
  assumes d: "dispatch X e s c = Inr (u, s', evs)" and inv: "blank_outside s"
  shows "blank_outside s'"
  unfolding blank_outside_def
proof (intro allI impI)
  fix pid
  assume nc: "\<not> created s' pid"
  show "blank (proposals s' pid)"
  proof (cases c)
    case (UpdateMemberRoot newRoot)
    with d inv nc show ?thesis
      by (auto simp: updateMemberRoot_def created_def blank_outside_def split: if_splits)
  next
    case (CreateProposal ttl descr md opts duration)
    with d obtain pid' where
      c: "createProposal e s ttl descr md opts duration = Inr (pid', s', evs)"
      by (auto split: sum.splits)
    note fresh = succ_not_below [OF createProposal_Inr(1) [OF c] order_refl]
    have cnt: "proposalCount s' = pid'" by (rule createProposal_Inr(2) [OF c])
    from nc cnt have "pid = 0 \<or> \<not> pid \<le> pid'" by (simp add: created_def)
    then have ne: "pid \<noteq> pid'" and old: "\<not> created s pid"
      using fresh by (auto simp: created_def)
    from createProposal_Inr(6) [OF c] obtain cl where
      "proposals s' = (proposals s)(pid' := (proposals s pid')
         \<lparr>title := ttl, description := descr, mode := md, options := opts, closes := cl\<rparr>)"
      by blast
    with ne have "proposals s' pid = proposals s pid" by simp
    with inv old show ?thesis by (simp add: blank_outside_def)
  next
    case (CloseProposal pid')
    with d have c: "closeProposal e s pid' = Inr (u, s', evs)" by simp
    note s' = closeProposal_Inr(3) [OF c]
    from nc have "\<not> created s pid" unfolding s' by (simp add: created_def)
    with inv have "blank (proposals s pid)" by (simp add: blank_outside_def)
    then show ?thesis unfolding s' by (cases "pid = pid'") (simp_all add: blank_def)
  next
    case (Vote pid' opt sg n root zk)
    with d have "vote X e s pid' opt sg n root zk = Inr (u, s', evs)" by simp
    from vote_Inr(7) [OF this] obtain w where
      s': "s' = s\<lparr>proposals := (proposals s)(pid' := (proposals s pid')
              \<lparr>nullifiers := (nullifiers (proposals s pid'))(n := True),
               tally := (tally (proposals s pid'))
                 (ucast opt := tally (proposals s pid') (ucast opt) + w)\<rparr>)\<rparr>"
      by blast
    from nc have "\<not> created s pid" unfolding s' by (simp add: created_def)
    with inv have "blank (proposals s pid)" by (simp add: blank_outside_def)
    then show ?thesis unfolding s' by (cases "pid = pid'") (simp_all add: blank_def)
  next
    case (TransferOwnership newOwner)
    with d inv nc show ?thesis
      by (auto simp: transferOwnership_def created_def blank_outside_def split: if_splits)
  next
    case RenounceOwnership
    with d inv nc show ?thesis
      by (auto simp: renounceOwnership_def created_def blank_outside_def split: if_splits)
  qed
qed

lemma transact_blank: "blank_outside s \<Longrightarrow> blank_outside (transact X s tx)"
  using dispatch_blank [of X "fst tx" s "snd tx"]
  by (auto simp: transact_def split: sum.splits)

lemma run_blank: "blank_outside s \<Longrightarrow> blank_outside (run X s txs)"
  unfolding run_def
  by (induction txs arbitrary: s) (simp_all add: transact_blank)

text \<open>
  Right after the constructor no proposal exists, and \<open>getProposal(1)\<close> returns the
  zero record instead of failing; so does \<open>getProposal(5)\<close> on the example deployment,
  whose only proposal has id \<open>1\<close>.
\<close>

theorem getProposal_unknown_id_counterexample:
  "constructor 1 42 0 = Inr (ex_initial, [OwnershipTransferred 0 1])
   \<and> getProposal (ex_env 100 2 0) ex_initial 1 = Inr ([], Simple, False, 0, [])
   \<and> getProposal (ex_env 100 2 0) (ex_storage Simple 0) 5 = Inr ([], Simple, False, 0, [])"
  by (simp add: constructor_def getProposal_def ex_initial_def ex_defs empty_Proposal_def Let_def)

text \<open>
  C9, as the code has it. In every state the contract can reach from its constructor,
  \<open>getProposal\<close> returns for every id: the title, the mode, \<open>isOpen\<close> computed as not
  closed and \<open>now < closesAt\<close>, the closing time and the options stored under that id.
  For an id that \<open>createProposal\<close> has not handed out these are the empty title,
  \<open>Simple\<close>, \<open>false\<close>, \<open>0\<close> and no options. No call of \<open>getProposal\<close> fails.
\<close>

theorem getProposal_never_fails:
  assumes "constructor a root tok = Inr (s0, evs0)"
  shows "getProposal e (run X s0 txs) pid
           = Inr (title (proposals (run X s0 txs) pid), mode (proposals (run X s0 txs) pid),
                  \<not> closed (proposals (run X s0 txs) pid)
                    \<and> timestamp e < ucast (closes (proposals (run X s0 txs) pid)),
                  closes (proposals (run X s0 txs) pid), options (proposals (run X s0 txs) pid))
         \<and> (\<not> created (run X s0 txs) pid \<longrightarrow>
              getProposal e (run X s0 txs) pid = Inr ([], Simple, False, 0, []))"
proof -
  have "blank_outside (run X s0 txs)"
    using constructor_blank [OF assms] by (rule run_blank)
  then have "\<not> created (run X s0 txs) pid \<longrightarrow> blank (proposals (run X s0 txs) pid)"
    by (simp add: blank_outside_def)
  then show ?thesis by (auto simp: getProposal_def blank_def Let_def)
qed


theorem getProposal_never_fails_witness:
  "constructor 1 42 0 = Inr (ex_initial, [OwnershipTransferred 0 1])
   \<and> getProposal (ex_env 100 2 0)
        (run ex_X ex_initial [(ex_env 0 1 0, CreateProposal ''T'' ''D'' Simple [''Yes'', ''No''] 300)]) 1
       = Inr (''T'', Simple, True, 300, [''Yes'', ''No''])
   \<and> getProposal (ex_env 100 2 0)
        (run ex_X ex_initial [(ex_env 0 1 0, CreateProposal ''T'' ''D'' Simple [''Yes'', ''No''] 300)]) 2
       = Inr ([], Simple, False, 0, [])"
proof -
  have c: "constructor 1 42 0 = Inr (ex_initial, [OwnershipTransferred 0 1])"
    by (simp add: constructor_def ex_initial_def)
  let ?txs = "[(ex_env 0 1 0, CreateProposal ''T'' ''D'' Simple [''Yes'', ''No''] 300)]"
  have r: "run ex_X ex_initial ?txs = ex_storage Simple 0" by (rule ex_deploy [OF c])
  have nc: "\<not> created (ex_storage Simple 0) 2"
    by (simp add: created_def ex_defs word_le_nat_alt)
  from getProposal_never_fails [OF c, of "ex_env 100 2 0" ex_X ?txs 1]
  have 1: "getProposal (ex_env 100 2 0) (run ex_X ex_initial ?txs) 1
             = Inr (''T'', Simple, True, 300, [''Yes'', ''No''])"
    unfolding r by (simp add: ex_defs)
  from getProposal_never_fails [OF c, of "ex_env 100 2 0" ex_X ?txs 2] nc
  have 2: "getProposal (ex_env 100 2 0) (run ex_X ex_initial ?txs) 2
             = Inr ([], Simple, False, 0, [])"
    unfolding r by blast
  from c 1 2 show ?thesis by simp
qed

section \<open>The partial tally reader\<close>

lemma next_index16:
  fixes i :: uint16
  assumes "unat i < 65535"
  shows "checked_add i 1 = Inr (i + 1)" "unat (i + 1) = unat i + 1"
proof -
  from assms have b: "unat i + unat (1 :: uint16) < 2 ^ LENGTH(16)" by simp
  then show "checked_add i 1 = Inr (i + 1)" by (simp add: checked_add_def)
  from b have "unat (i + 1) = unat i + unat (1 :: uint16)"
    by (simp only: unat_add_lem [THEN iffD1])
  then show "unat (i + 1) = unat i + 1" by simp
qed

lemma tallies_loop_correct:
  "unat start \<le> unat i \<Longrightarrow> unat i \<le> unat en \<Longrightarrow> length out = unat en - unat start \<Longrightarrow>
   tallies_loop p start en i out
     = Inr (take (unat i - unat start) out @ map (\<lambda>j. tally p (of_nat j)) [unat i ..< unat en])"
proof (induction "unat en - unat i" arbitrary: i out)
  case 0
  then have "\<not> i < en" by (simp add: word_less_nat_alt)
  with 0 show ?case by (subst tallies_loop.simps) simp
next
  case (Suc m)
  then have lt: "unat i < unat en" by simp
  then have ilt: "i < en" by (simp add: word_less_nat_alt)
  have "unat en < 2 ^ LENGTH(16)" by (rule unsigned_less)
  with lt have i16: "unat i < 65535" by simp
  have sle: "start \<le> i" using Suc.prems(1) by (simp add: word_le_nat_alt)
  then have sub: "checked_sub i start = Inr (i - start)" by (simp add: checked_sub_def)
  have uk: "unat (i - start) = unat i - unat start" using sle by (simp add: unat_sub)
  have klt: "unat (i - start) < length out" using uk lt Suc.prems(1,3) by simp
  define out' where "out' = out[unat (i - start) := tally p (ucast i)]"
  have IH: "tallies_loop p start en (i + 1) out'
          = Inr (take (unat (i + 1) - unat start) out'
                 @ map (\<lambda>j. tally p (of_nat j)) [unat (i + 1) ..< unat en])"
    using Suc.hyps(2) Suc.prems lt next_index16(2) [OF i16]
    by (intro Suc.hyps(1)) (simp_all add: out'_def)
  have tk: "take (unat (i + 1) - unat start) out'
              = take (unat i - unat start) out @ [tally p (ucast i)]"
  proof -
    have "unat (i + 1) - unat start = Suc (unat (i - start))"
      using next_index16(2) [OF i16] uk Suc.prems(1) by simp
    then show ?thesis
      using klt uk by (simp add: out'_def take_Suc_conv_app_nth)
  qed
  have up: "[unat i ..< unat en] = unat i # [unat (i + 1) ..< unat en]"
    using lt next_index16(2) [OF i16] by (simp add: upt_conv_Cons)
  have "tallies_loop p start en i out = tallies_loop p start en (i + 1) out'"
    using ilt sub klt next_index16(1) [OF i16]
    by (subst tallies_loop.simps) (simp add: out'_def)
  also have "\<dots> = Inr (take (unat i - unat start) out
                        @ map (\<lambda>j. tally p (of_nat j)) [unat i ..< unat en])"
    unfolding IH tk up by simp
  finally show ?case .
qed


lemma tallies_wraps:
  assumes "start < of_nat (length (options (proposals s pid)))" and "n \<noteq> 0"
    and "\<not> unat start + unat n < 65536"
  shows "tallies s pid start n = Inl (Panic 0x11)"
proof -
  from assms(3) have "checked_add start n = Inl (Panic 0x11)" by (simp add: checked_add_def)
  with assms(2) have "tallies_end start n len = Inl (Panic 0x11)" for len
    by (simp add: tallies_end_def)
  with assms(1) show ?thesis by (simp add: tallies_def Let_def)
qed

text \<open>
  As long as \<open>start + n\<close> fits in 16 bits (and the proposal has fewer than \<open>2\<^sup>1\<^sup>6\<close>
  options) the reader does what its description says: \<open>oob\<close> exactly when
  \<open>start \<ge> options.length\<close>, and otherwise the tallies from \<open>start\<close> up to the end,
  which is \<open>options.length\<close> when \<open>n\<close> is zero or \<open>start + n\<close> exceeds it.
\<close>

lemma tallies_without_wraparound:
  assumes L: "length (options (proposals s pid)) < 65536"
    and nw: "unat start + unat n < 65536"
  shows "tallies s pid start n =
     (if length (options (proposals s pid)) \<le> unat start then Inl (Revert ''oob'')
      else Inr (map (\<lambda>j. tally (proposals s pid) (of_nat j))
                  [unat start ..<
                     (if n = 0 \<or> length (options (proposals s pid)) < unat start + unat n
                      then length (options (proposals s pid))
                      else unat start + unat n)]))"
proof -
  let ?p = "proposals s pid"
  define len :: uint16 where "len = of_nat (length (options ?p))"
  have ulen: "unat len = length (options ?p)"
    using L by (simp add: len_def unat_of_nat)
  show ?thesis
  proof (cases "start < len")
    case False
    then have "length (options ?p) \<le> unat start" using ulen by (simp add: word_less_nat_alt)
    with False show ?thesis by (simp add: tallies_def Let_def len_def)
  next
    case True
    then have slt: "unat start < length (options ?p)" using ulen by (simp add: word_less_nat_alt)
    have b: "unat start + unat n < 2 ^ LENGTH(16)" using nw by simp
    then have add: "checked_add start n = Inr (start + n)" by (simp add: checked_add_def)
    have uadd: "unat (start + n) = unat start + unat n"
      using b by (simp only: unat_add_lem [THEN iffD1])
    then have nlt: "\<not> start + n < start" by (simp add: word_less_nat_alt)
    define en :: uint16 where "en = (if n = 0 \<or> len < start + n then len else start + n)"
    have te: "tallies_end start n len = Inr en"
      using add nlt by (simp add: tallies_end_def en_def)
    have npos: "n \<noteq> 0 \<Longrightarrow> 0 < unat n" by (simp add: unat_gt_0)
    have uen: "unat en = (if n = 0 \<or> length (options ?p) < unat start + unat n
                          then length (options ?p) else unat start + unat n)"
      using ulen uadd by (simp add: en_def word_less_nat_alt)
    have s_en: "unat start < unat en" using uen slt npos by (auto split: if_splits)
    then have "\<not> en \<le> start" by (simp add: word_le_nat_alt)
    moreover have "start \<le> en" using s_en by (simp add: word_le_nat_alt)
    then have "checked_sub en start = Inr (en - start)"
      and "unat (en - start) = unat en - unat start"
      by (simp_all add: checked_sub_def unat_sub)
    moreover have "tallies_loop ?p start en start (replicate (unat en - unat start) 0)
            = Inr (take (unat start - unat start) (replicate (unat en - unat start) 0)
                   @ map (\<lambda>j. tally ?p (of_nat j)) [unat start ..< unat en])"
      using s_en by (intro tallies_loop_correct) simp_all
    ultimately have "tallies s pid start n
                       = Inr (map (\<lambda>j. tally ?p (of_nat j)) [unat start ..< unat en])"
      using True te by (simp add: tallies_def Let_def len_def)
    with slt uen show ?thesis by simp
  qed
qed

lemma tallies_truncates_length:
  assumes "length (options (proposals s pid)) = 65536"
  shows "tallies s pid start n = Inl (Revert ''oob'')"
proof -
  have "(of_nat (length (options (proposals s pid))) :: uint16) = 0"
    using assms by simp
  then show ?thesis by (simp add: tallies_def Let_def)
qed

text \<open>
  C8. On the example proposal, with tallies \<open>[3, 2]\<close>: \<open>tallies(1, 1, 65535)\<close>, where
  \<open>start + n\<close> wraps around the 16-bit range, does not return the clamped range \<open>[2]\<close>
  but reverts with \<open>Panic(0x11)\<close>, the checked addition overflowing before the
  wraparound test can run. Without wraparound the reader clamps: \<open>tallies(1, 1, 0)\<close>
  is \<open>[2]\<close>, \<open>tallies(1, 0, 0)\<close> and \<open>tallies(1, 0, 7)\<close> are \<open>[3, 2]\<close>, and
  \<open>tallies(1, 2, 0)\<close> fails with \<open>oob\<close>.
\<close>

theorem tallies_wraparound_reverts:
  "tallies (ex_tallied 3 2) 1 1 65535 = Inl (Panic 0x11)
   \<and> tallies (ex_tallied 3 2) 1 1 0 = Inr [2]
   \<and> tallies (ex_tallied 3 2) 1 0 0 = Inr [3, 2]
   \<and> tallies (ex_tallied 3 2) 1 0 7 = Inr [3, 2]
   \<and> tallies (ex_tallied 3 2) 1 2 0 = Inl (Revert ''oob'')"
proof -
  have L: "length (options (proposals (ex_tallied 3 2) 1)) = 2"
    by (simp add: ex_tallied_defs)
  have t: "tally (proposals (ex_tallied 3 2) 1) 0 = 3" "tally (proposals (ex_tallied 3 2) 1) 1 = 2"
    by (simp_all add: ex_tallied_defs)
  have "tallies (ex_tallied 3 2) 1 1 65535 = Inl (Panic 0x11)"
    by (rule tallies_wraps) (simp_all add: L)
  moreover have "tallies (ex_tallied 3 2) 1 1 0 = Inr [2]"
    by (subst tallies_without_wraparound) (simp_all add: L t upt_rec)
  moreover have "tallies (ex_tallied 3 2) 1 0 0 = Inr [3, 2]"
    by (subst tallies_without_wraparound) (simp_all add: L t upt_rec)
  moreover have "tallies (ex_tallied 3 2) 1 0 7 = Inr [3, 2]"
    by (subst tallies_without_wraparound) (simp_all add: L t upt_rec)
  moreover have "tallies (ex_tallied 3 2) 1 2 0 = Inl (Revert ''oob'')"
    by (subst tallies_without_wraparound) (simp_all add: L)
  ultimately show ?thesis by simp
qed

end
